theory Spec2Isabelle
  imports Main "HOL-Library.Word"
begin

unbundle bit_operations_syntax

section \<open>Data model of \<^verbatim>\<open>blenkernel/intern/collection.c\<close>\<close>

text \<open>
  Pointers are addresses. \<^verbatim>\<open>Collection *\<close> and \<^verbatim>\<open>Object *\<close> are natural numbers, a
  pointer that may be \<^verbatim>\<open>NULL\<close> is an \<open>option\<close>. A \<^verbatim>\<open>ListBase\<close> of links is the list of
  the pointers its links hold, in list order: \<^verbatim>\<open>gobject\<close> (\<^verbatim>\<open>CollectionObject.ob\<close>),
  \<^verbatim>\<open>children\<close> (\<^verbatim>\<open>CollectionChild.collection\<close>), \<^verbatim>\<open>parents\<close>
  (\<^verbatim>\<open>CollectionParent.collection\<close>). A pointer to a link of such a list is the suffix of
  the list that starts at this link, the empty suffix being \<^verbatim>\<open>NULL\<close>.
\<close>

type_synonym collection_ptr = nat
type_synonym object_ptr = nat

record Base =
  object :: object_ptr
  base_flag :: "16 word"

record Collection =
  id_us :: nat
  flag :: "16 word"
  gobject :: "object_ptr list"
  children :: "collection_ptr list"
  parents :: "collection_ptr list"
  object_cache :: "Base list"

record Object =
  ob_us :: nat
  dup_group :: "collection_ptr option"

text \<open>The memory holding the collections: what each \<^verbatim>\<open>Collection *\<close> points to.\<close>

type_synonym collections = "collection_ptr \<Rightarrow> Collection"

text \<open>
  The state the mutators work on: the collections, the objects, and the number of
  \<^verbatim>\<open>BKE_main_collection_sync\<close> requests sent to the view layer code so far.
\<close>

record world =
  colls :: collections
  objs :: "object_ptr \<Rightarrow> Object"
  sync_requests :: nat

record Scene =
  master_collection :: collection_ptr

subsection \<open>Flag bits\<close>

text \<open>
  The flag enumerations are declared in headers that are not part of the sources at hand
  (\<^verbatim>\<open>DNA_group_types.h\<close>, \<^verbatim>\<open>DNA_layer_types.h\<close>, \<^verbatim>\<open>BKE_library.h\<close>); the values are
  the ones of these headers. The theorems about all graphs only use that
  \<^verbatim>\<open>COLLECTION_HAS_OBJECT_CACHE\<close> is not zero.
\<close>

definition COLLECTION_RESTRICT_VIEW :: "16 word" where
  "COLLECTION_RESTRICT_VIEW = push_bit 0 1"

definition COLLECTION_RESTRICT_SELECT :: "16 word" where
  "COLLECTION_RESTRICT_SELECT = push_bit 1 1"

definition COLLECTION_RESTRICT_RENDER :: "16 word" where
  "COLLECTION_RESTRICT_RENDER = push_bit 3 1"

definition COLLECTION_HAS_OBJECT_CACHE :: "16 word" where
  "COLLECTION_HAS_OBJECT_CACHE = push_bit 4 1"

definition COLLECTION_IS_MASTER :: "16 word" where
  "COLLECTION_IS_MASTER = push_bit 5 1"

definition BASE_SELECTED :: "16 word" where
  "BASE_SELECTED = push_bit 0 1"

definition BASE_VISIBLED :: "16 word" where
  "BASE_VISIBLED = push_bit 1 1"

definition BASE_SELECTABLED :: "16 word" where
  "BASE_SELECTABLED = push_bit 2 1"

definition BASE_VISIBLE_VIEWPORT :: "16 word" where
  "BASE_VISIBLE_VIEWPORT = push_bit 6 1"

definition BASE_VISIBLE_RENDER :: "16 word" where
  "BASE_VISIBLE_RENDER = push_bit 7 1"

definition LIB_ID_CREATE_NO_MAIN :: "32 word" where
  "LIB_ID_CREATE_NO_MAIN = push_bit 0 1"

definition LIB_ID_CREATE_NO_USER_REFCOUNT :: "32 word" where
  "LIB_ID_CREATE_NO_USER_REFCOUNT = push_bit 1 1"

subsection \<open>Loops over a list of links\<close>

text \<open>
  The recursive functions of the file walk the graph of collections and do not return on
  a graph with a cycle. They are modelled with a bound on the depth of the recursion: the
  value \<open>None\<close> says that the bound was reached. The two loop shapes of the file are a
  search that returns \<^verbatim>\<open>true\<close> at the first hit, and a loop that threads the state
  through the calls.
\<close>

fun any_opt :: "('a \<Rightarrow> bool option) \<Rightarrow> 'a list \<Rightarrow> bool option" where
  "any_opt f [] = Some False"
| "any_opt f (x # xs) =
     (case f x of
        None \<Rightarrow> None
      | Some True \<Rightarrow> Some True
      | Some False \<Rightarrow> any_opt f xs)"

fun fold_opt :: "('a \<Rightarrow> 's \<Rightarrow> 's option) \<Rightarrow> 'a list \<Rightarrow> 's \<Rightarrow> 's option" where
  "fold_opt f [] s = Some s"
| "fold_opt f (x # xs) s =
     (case f x s of
        None \<Rightarrow> None
      | Some s' \<Rightarrow> fold_opt f xs s')"

subsection \<open>Cyclic checks\<close>

fun BKE_collection_find_cycle ::
  "nat \<Rightarrow> collections \<Rightarrow> collection_ptr \<Rightarrow> collection_ptr \<Rightarrow> bool option" where
  "BKE_collection_find_cycle 0 h new_ancestor collection = None"
| "BKE_collection_find_cycle (Suc n) h new_ancestor collection =
     (if collection = new_ancestor then Some True
      else any_opt (\<lambda>parent. BKE_collection_find_cycle n h parent collection)
             (parents (h new_ancestor)))"

fun collection_find_child_recursive ::
  "nat \<Rightarrow> collections \<Rightarrow> collection_ptr \<Rightarrow> collection_ptr \<Rightarrow> bool option" where
  "collection_find_child_recursive 0 h parent collection = None"
| "collection_find_child_recursive (Suc n) h parent collection =
     any_opt (\<lambda>child. if child = collection then Some True
                       else collection_find_child_recursive n h child collection)
       (children (h parent))"

text \<open>
  \<^verbatim>\<open>collection_find_child\<close> and \<^verbatim>\<open>collection_find_parent\<close> are \<^verbatim>\<open>BLI_findptr\<close> on the
  list of links: the first link that holds the pointer, or \<^verbatim>\<open>NULL\<close>. The result is only
  tested against \<^verbatim>\<open>NULL\<close> or handed to \<^verbatim>\<open>BLI_freelinkN\<close>, which unlinks this first link
  (\<open>remove1\<close>) and does nothing to the list for \<^verbatim>\<open>NULL\<close>.
\<close>

definition collection_find_child :: "collections \<Rightarrow> collection_ptr \<Rightarrow> collection_ptr \<Rightarrow> bool" where
  "collection_find_child h parent collection \<longleftrightarrow> collection \<in> set (children (h parent))"

definition collection_find_parent :: "collections \<Rightarrow> collection_ptr \<Rightarrow> collection_ptr \<Rightarrow> bool" where
  "collection_find_parent h child collection \<longleftrightarrow> collection \<in> set (parents (h child))"

subsection \<open>Object list cache\<close>

definition new_base :: "32 word \<Rightarrow> object_ptr \<Rightarrow> Base" where
  "new_base child_restrict ob =
     (let f0 = (0 :: 16 word);
          f1 = (if child_restrict AND scast COLLECTION_RESTRICT_VIEW = 0
                then (let f = f0 OR (BASE_VISIBLED OR BASE_VISIBLE_VIEWPORT)
                      in if child_restrict AND scast COLLECTION_RESTRICT_SELECT = 0
                         then f OR BASE_SELECTABLED else f)
                else f0);
          f2 = (if child_restrict AND scast COLLECTION_RESTRICT_RENDER = 0
                then f1 OR BASE_VISIBLE_RENDER else f1)
      in \<lparr>object = ob, base_flag = f2\<rparr>)"

text \<open>The first loop of \<^verbatim>\<open>collection_object_cache_fill\<close>, over \<^verbatim>\<open>collection->gobject\<close>.\<close>

fun cache_fill_objects :: "32 word \<Rightarrow> object_ptr list \<Rightarrow> Base list \<Rightarrow> Base list" where
  "cache_fill_objects child_restrict [] lb = lb"
| "cache_fill_objects child_restrict (ob # cobs) lb =
     cache_fill_objects child_restrict cobs
       (if ob \<in> object ` set lb then lb else lb @ [new_base child_restrict ob])"

text \<open>
  The list \<^verbatim>\<open>lb\<close> is the \<^verbatim>\<open>object_cache\<close> of the collection the fill started at; the
  function reads \<^verbatim>\<open>flag\<close>, \<^verbatim>\<open>gobject\<close> and \<^verbatim>\<open>children\<close> only, so the list is passed
  along and stored by the caller.
\<close>

fun collection_object_cache_fill ::
  "nat \<Rightarrow> collections \<Rightarrow> Base list \<Rightarrow> collection_ptr \<Rightarrow> 32 word \<Rightarrow> Base list option" where
  "collection_object_cache_fill 0 h lb collection parent_restrict = None"
| "collection_object_cache_fill (Suc n) h lb collection parent_restrict =
     (let child_restrict = scast (flag (h collection)) OR parent_restrict;
          lb1 = cache_fill_objects child_restrict (gobject (h collection)) lb
      in fold_opt (\<lambda>child lb'. collection_object_cache_fill n h lb' child child_restrict)
           (children (h collection)) lb1)"

text \<open>
  \<^verbatim>\<open>BKE_collection_object_cache_get\<close> returns the list and leaves it stored. The mutex only
  orders concurrent callers; in one thread the second test of the flag repeats the first.
\<close>

definition BKE_collection_object_cache_get ::
  "nat \<Rightarrow> collections \<Rightarrow> collection_ptr \<Rightarrow> (Base list \<times> collections) option" where
  "BKE_collection_object_cache_get n h collection =
     (if flag (h collection) AND COLLECTION_HAS_OBJECT_CACHE = 0 then
        (if flag (h collection) AND COLLECTION_HAS_OBJECT_CACHE = 0 then
           (case collection_object_cache_fill n h (object_cache (h collection)) collection 0 of
              None \<Rightarrow> None
            | Some lb \<Rightarrow>
                (let h' = h(collection := (h collection)
                            \<lparr>flag := flag (h collection) OR COLLECTION_HAS_OBJECT_CACHE,
                             object_cache := lb\<rparr>)
                 in Some (object_cache (h' collection), h')))
         else Some (object_cache (h collection), h))
      else Some (object_cache (h collection), h))"

fun collection_object_cache_free ::
  "nat \<Rightarrow> collections \<Rightarrow> collection_ptr \<Rightarrow> collections option" where
  "collection_object_cache_free 0 h collection = None"
| "collection_object_cache_free (Suc n) h collection =
     (let h1 = h(collection := (h collection)
                 \<lparr>flag := flag (h collection) AND NOT COLLECTION_HAS_OBJECT_CACHE,
                  object_cache := []\<rparr>)
      in fold_opt (\<lambda>parent h'. collection_object_cache_free n h' parent)
           (parents (h1 collection)) h1)"

definition BKE_collection_object_cache_free ::
  "nat \<Rightarrow> collections \<Rightarrow> collection_ptr \<Rightarrow> collections option" where
  "BKE_collection_object_cache_free n h collection = collection_object_cache_free n h collection"

subsection \<open>External services\<close>

text \<open>
  Modelled from the spec: the reference-counting service (\<^verbatim>\<open>id_us_plus\<close>, \<^verbatim>\<open>id_us_min\<close>,
  \<^verbatim>\<open>BKE_libblock_free_us\<close>) and the sync request (\<^verbatim>\<open>BKE_main_collection_sync\<close>) are
  external collaborators whose code is not part of the sources at hand. Only the user
  count is kept: increment adds one, decrement and release take one away and stop at
  zero; what release does with an object that has no user left is outside this model.
  A sync request is counted and changes nothing else.
\<close>

definition object_id_us_plus :: "Object \<Rightarrow> Object" where
  "object_id_us_plus ob = ob\<lparr>ob_us := Suc (ob_us ob)\<rparr>"

definition object_id_us_min :: "Object \<Rightarrow> Object" where
  "object_id_us_min ob = ob\<lparr>ob_us := ob_us ob - 1\<rparr>"

definition BKE_libblock_free_us :: "Object \<Rightarrow> Object" where
  "BKE_libblock_free_us ob = ob\<lparr>ob_us := ob_us ob - 1\<rparr>"

definition collection_id_us_plus :: "Collection \<Rightarrow> Collection" where
  "collection_id_us_plus c = c\<lparr>id_us := Suc (id_us c)\<rparr>"

definition collection_id_us_min :: "Collection \<Rightarrow> Collection" where
  "collection_id_us_min c = c\<lparr>id_us := id_us c - 1\<rparr>"

definition BKE_main_collection_sync :: "world \<Rightarrow> world" where
  "BKE_main_collection_sync s = s\<lparr>sync_requests := Suc (sync_requests s)\<rparr>"

subsection \<open>Collection scene membership\<close>

fun BKE_collection_is_in_scene :: "nat \<Rightarrow> collections \<Rightarrow> collection_ptr \<Rightarrow> bool option" where
  "BKE_collection_is_in_scene 0 h collection = None"
| "BKE_collection_is_in_scene (Suc n) h collection =
     (if flag (h collection) AND COLLECTION_IS_MASTER \<noteq> 0 then Some True
      else any_opt (\<lambda>cparent. BKE_collection_is_in_scene n h cparent) (parents (h collection)))"

subsection \<open>Collection objects\<close>

definition collection_object_add ::
  "nat \<Rightarrow> world \<Rightarrow> collection_ptr \<Rightarrow> object_ptr \<Rightarrow> 32 word \<Rightarrow> bool \<Rightarrow> (bool \<times> world) option" where
  "collection_object_add n s collection ob flg add_us =
     (case (case dup_group (objs s ob) of
              None \<Rightarrow> Some False
            | Some dg \<Rightarrow> collection_find_child_recursive n (colls s) collection dg) of
        None \<Rightarrow> None
      | Some True \<Rightarrow> Some (False, s)
      | Some False \<Rightarrow>
          if ob \<in> set (gobject (colls s collection)) then Some (False, s)
          else
            (let h1 = (colls s)(collection := (colls s collection)
                        \<lparr>gobject := gobject (colls s collection) @ [ob]\<rparr>)
             in case BKE_collection_object_cache_free n h1 collection of
                  None \<Rightarrow> None
                | Some h2 \<Rightarrow>
                    Some (True,
                      s\<lparr>colls := h2,
                        objs := (if add_us \<and> flg AND LIB_ID_CREATE_NO_USER_REFCOUNT = 0
                                 then (objs s)(ob := object_id_us_plus (objs s ob))
                                 else objs s)\<rparr>)))"

definition collection_object_remove ::
  "nat \<Rightarrow> world \<Rightarrow> collection_ptr \<Rightarrow> object_ptr \<Rightarrow> bool \<Rightarrow> (bool \<times> world) option" where
  "collection_object_remove n s collection ob free_us =
     (if ob \<notin> set (gobject (colls s collection)) then Some (False, s)
      else
        (let h1 = (colls s)(collection := (colls s collection)
                    \<lparr>gobject := remove1 ob (gobject (colls s collection))\<rparr>)
         in case BKE_collection_object_cache_free n h1 collection of
              None \<Rightarrow> None
            | Some h2 \<Rightarrow>
                Some (True,
                  s\<lparr>colls := h2,
                    objs := (if free_us
                             then (objs s)(ob := BKE_libblock_free_us (objs s ob))
                             else (objs s)(ob := object_id_us_min (objs s ob)))\<rparr>)))"

definition BKE_collection_object_add ::
  "nat \<Rightarrow> world \<Rightarrow> collection_ptr option \<Rightarrow> object_ptr option \<Rightarrow> (bool \<times> world) option" where
  "BKE_collection_object_add n s collection ob =
     (case (collection, ob) of
        (Some c, Some b) \<Rightarrow>
          (case collection_object_add n s c b 0 True of
             None \<Rightarrow> None
           | Some (False, s1) \<Rightarrow> Some (False, s1)
           | Some (True, s1) \<Rightarrow>
               (case BKE_collection_is_in_scene n (colls s1) c of
                  None \<Rightarrow> None
                | Some in_scene \<Rightarrow>
                    Some (True, if in_scene then BKE_main_collection_sync s1 else s1)))
      | _ \<Rightarrow> Some (False, s))"

definition BKE_collection_object_remove ::
  "nat \<Rightarrow> world \<Rightarrow> collection_ptr option \<Rightarrow> object_ptr option \<Rightarrow> bool \<Rightarrow> (bool \<times> world) option" where
  "BKE_collection_object_remove n s collection ob free_us =
     (case (collection, ob) of
        (Some c, Some b) \<Rightarrow>
          (case collection_object_remove n s c b free_us of
             None \<Rightarrow> None
           | Some (False, s1) \<Rightarrow> Some (False, s1)
           | Some (True, s1) \<Rightarrow>
               (case BKE_collection_is_in_scene n (colls s1) c of
                  None \<Rightarrow> None
                | Some in_scene \<Rightarrow>
                    Some (True, if in_scene then BKE_main_collection_sync s1 else s1)))
      | _ \<Rightarrow> Some (False, s))"

subsection \<open>Collection children\<close>

definition collection_child_add ::
  "nat \<Rightarrow> world \<Rightarrow> collection_ptr \<Rightarrow> collection_ptr \<Rightarrow> 32 word \<Rightarrow> bool \<Rightarrow> (bool \<times> world) option" where
  "collection_child_add n s parent collection flg add_us =
     (if collection_find_child (colls s) parent collection then Some (False, s)
      else
        (case BKE_collection_find_cycle n (colls s) parent collection of
           None \<Rightarrow> None
         | Some True \<Rightarrow> Some (False, s)
         | Some False \<Rightarrow>
             (let h1 = (colls s)(parent := (colls s parent)
                         \<lparr>children := children (colls s parent) @ [collection]\<rparr>);
                  h2 = (if flg AND LIB_ID_CREATE_NO_MAIN = 0
                        then h1(collection := (h1 collection)
                               \<lparr>parents := parents (h1 collection) @ [parent]\<rparr>)
                        else h1);
                  h3 = (if add_us then h2(collection := collection_id_us_plus (h2 collection))
                        else h2)
              in case BKE_collection_object_cache_free n h3 parent of
                   None \<Rightarrow> None
                 | Some h4 \<Rightarrow> Some (True, s\<lparr>colls := h4\<rparr>))))"

definition collection_child_remove ::
  "nat \<Rightarrow> world \<Rightarrow> collection_ptr \<Rightarrow> collection_ptr \<Rightarrow> (bool \<times> world) option" where
  "collection_child_remove n s parent collection =
     (if \<not> collection_find_child (colls s) parent collection then Some (False, s)
      else
        (let h0 = colls s;
             h1 = h0(collection := (h0 collection)
                    \<lparr>parents := remove1 parent (parents (h0 collection))\<rparr>);
             h2 = h1(parent := (h1 parent)
                    \<lparr>children := remove1 collection (children (h1 parent))\<rparr>);
             h3 = h2(collection := collection_id_us_min (h2 collection))
         in case BKE_collection_object_cache_free n h3 parent of
              None \<Rightarrow> None
            | Some h4 \<Rightarrow> Some (True, s\<lparr>colls := h4\<rparr>)))"

definition BKE_collection_child_add ::
  "nat \<Rightarrow> world \<Rightarrow> collection_ptr \<Rightarrow> collection_ptr \<Rightarrow> (bool \<times> world) option" where
  "BKE_collection_child_add n s parent child =
     (case collection_child_add n s parent child 0 True of
        None \<Rightarrow> None
      | Some (False, s1) \<Rightarrow> Some (False, s1)
      | Some (True, s1) \<Rightarrow> Some (True, BKE_main_collection_sync s1))"

definition BKE_collection_child_remove ::
  "nat \<Rightarrow> world \<Rightarrow> collection_ptr \<Rightarrow> collection_ptr \<Rightarrow> (bool \<times> world) option" where
  "BKE_collection_child_remove n s parent child =
     (case collection_child_remove n s parent child of
        None \<Rightarrow> None
      | Some (False, s1) \<Rightarrow> Some (False, s1)
      | Some (True, s1) \<Rightarrow> Some (True, BKE_main_collection_sync s1))"

subsection \<open>Sibling-select traversal\<close>

text \<open>
  The view layer is seen through \<^verbatim>\<open>BKE_view_layer_base_find\<close> only: the flag of the base
  of an object, when the view layer has one.
\<close>

type_synonym ViewLayer = "object_ptr \<Rightarrow> 16 word option"

text \<open>The first loop of \<^verbatim>\<open>collection_objects_select\<close>, over \<^verbatim>\<open>collection->gobject\<close>.\<close>

fun select_objects :: "bool \<Rightarrow> object_ptr list \<Rightarrow> bool \<times> ViewLayer \<Rightarrow> bool \<times> ViewLayer" where
  "select_objects deselect [] (changed, vl) = (changed, vl)"
| "select_objects deselect (ob # cobs) (changed, vl) =
     select_objects deselect cobs
       (case vl ob of
          None \<Rightarrow> (changed, vl)
        | Some f \<Rightarrow>
            if deselect then
              (if f AND BASE_SELECTED \<noteq> 0
               then (True, vl(ob \<mapsto> f AND NOT BASE_SELECTED))
               else (changed, vl))
            else
              (if f AND BASE_SELECTABLED \<noteq> 0 \<and> \<not> (f AND BASE_SELECTED \<noteq> 0)
               then (True, vl(ob \<mapsto> f OR BASE_SELECTED))
               else (changed, vl)))"

fun collection_objects_select ::
  "nat \<Rightarrow> ViewLayer \<Rightarrow> collections \<Rightarrow> collection_ptr \<Rightarrow> bool \<Rightarrow> (bool \<times> ViewLayer) option" where
  "collection_objects_select 0 vl h collection deselect = None"
| "collection_objects_select (Suc n) vl h collection deselect =
     (if flag (h collection) AND COLLECTION_RESTRICT_SELECT \<noteq> 0 then Some (False, vl)
      else
        fold_opt
          (\<lambda>child (changed, vl').
             case collection_objects_select n vl' h collection deselect of
               None \<Rightarrow> None
             | Some (True, vl'') \<Rightarrow> Some (True, vl'')
             | Some (False, vl'') \<Rightarrow> Some (changed, vl''))
          (children (h collection))
          (select_objects deselect (gobject (h collection)) (False, vl)))"

subsection \<open>Scene collection iterator\<close>

fun scene_collection_callback ::
  "nat \<Rightarrow> collections \<Rightarrow> collection_ptr \<Rightarrow> (collection_ptr \<Rightarrow> 'd \<Rightarrow> 'd) \<Rightarrow> 'd \<Rightarrow> 'd option" where
  "scene_collection_callback 0 h collection callback data = None"
| "scene_collection_callback (Suc n) h collection callback data =
     fold_opt (\<lambda>child d. scene_collection_callback n h child callback d)
       (children (h collection)) (callback collection data)"

definition scene_collections_count :: "collection_ptr \<Rightarrow> nat \<Rightarrow> nat" where
  "scene_collections_count collection tot = tot + 1"

text \<open>
  \<^verbatim>\<open>scene_collections_build_array\<close> writes at a cursor into the array and moves the cursor
  on; the data of the model is the part of the array written so far.
\<close>

definition scene_collections_build_array :: "collection_ptr \<Rightarrow> collection_ptr list \<Rightarrow> collection_ptr list" where
  "scene_collections_build_array collection array = array @ [collection]"

definition scene_collections_array ::
  "nat \<Rightarrow> collections \<Rightarrow> Scene option \<Rightarrow> (collection_ptr list \<times> nat) option" where
  "scene_collections_array n h scene =
     (case scene of
        None \<Rightarrow> Some ([], 0)
      | Some sc \<Rightarrow>
          (let collection = master_collection sc
           in case scene_collection_callback n h collection scene_collections_count 0 of
                None \<Rightarrow> None
              | Some tot \<Rightarrow>
                  if tot = 0 then Some ([], 0)
                  else
                    (case scene_collection_callback n h collection
                            scene_collections_build_array [] of
                       None \<Rightarrow> None
                     | Some array \<Rightarrow> Some (array, tot))))"

record CollectionsIteratorData =
  array :: "collection_ptr list"
  tot :: nat
  cur :: nat

record 'd BLI_Iterator =
  current :: nat
  valid :: bool
  data :: 'd

text \<open>
  \<^verbatim>\<open>BKE_scene_collections_iterator_begin\<close> asserts that the array has an entry, which it
  has for a scene: the master collection comes first. The field \<^verbatim>\<open>scene\<close> of the iterator
  data is written and never read; it is left out.
\<close>

definition BKE_scene_collections_iterator_begin ::
  "nat \<Rightarrow> collections \<Rightarrow> Scene \<Rightarrow> CollectionsIteratorData BLI_Iterator option" where
  "BKE_scene_collections_iterator_begin n h scene =
     (case scene_collections_array n h (Some scene) of
        None \<Rightarrow> None
      | Some (arr, t) \<Rightarrow>
          Some \<lparr>current = arr ! 0, valid = True, data = \<lparr>array = arr, tot = t, cur = 0\<rparr>\<rparr>)"

definition BKE_scene_collections_iterator_next ::
  "CollectionsIteratorData BLI_Iterator \<Rightarrow> CollectionsIteratorData BLI_Iterator" where
  "BKE_scene_collections_iterator_next iter =
     (let d = (data iter)\<lparr>cur := cur (data iter) + 1\<rparr>
      in if cur d < tot d then iter\<lparr>current := array d ! cur d, data := d\<rparr>
         else iter\<lparr>valid := False, data := d\<rparr>)"

text \<open>
  Modelled from the spec: the loop macros (\<^verbatim>\<open>FOREACH_SCENE_COLLECTION_BEGIN\<close>,
  \<^verbatim>\<open>FOREACH_SCENE_OBJECT_BEGIN\<close>, both \<^verbatim>\<open>ITER_BEGIN\<close> of \<^verbatim>\<open>BLI_iterator.h\<close>) are not part
  of the sources at hand. An iterator is a one-shot sequence: the macro sets
  \<^verbatim>\<open>valid\<close>, calls \<^verbatim>\<open>begin\<close>, and while \<^verbatim>\<open>valid\<close> holds hands \<^verbatim>\<open>current\<close> to the body and
  calls \<^verbatim>\<open>next\<close>.
\<close>

function scene_collections_iterate :: "CollectionsIteratorData BLI_Iterator \<Rightarrow> collection_ptr list" where
  "scene_collections_iterate iter =
     (if valid iter
      then current iter # scene_collections_iterate (BKE_scene_collections_iterator_next iter)
      else [])"
  by pat_completeness auto
termination
  by (relation "measure (\<lambda>iter. if valid iter then Suc (tot (data iter) - cur (data iter)) else 0)")
     (auto simp: BKE_scene_collections_iterator_next_def Let_def)

definition FOREACH_SCENE_COLLECTION :: "nat \<Rightarrow> collections \<Rightarrow> Scene \<Rightarrow> collection_ptr list option" where
  "FOREACH_SCENE_COLLECTION n h scene =
     map_option scene_collections_iterate (BKE_scene_collections_iterator_begin n h scene)"

subsection \<open>Scene objects iterator\<close>

record SceneObjectsIteratorData =
  visited :: "object_ptr set"
  cob_next :: "object_ptr list"
  scene_collection_iter :: "CollectionsIteratorData BLI_Iterator"

text \<open>
  \<^verbatim>\<open>object_base_unique\<close> returns the link it stopped at (the suffix of the list, empty for
  \<^verbatim>\<open>NULL\<close>) and has added the object of this link to the set.
\<close>

fun object_base_unique :: "object_ptr set \<Rightarrow> object_ptr list \<Rightarrow> object_ptr set \<times> object_ptr list" where
  "object_base_unique gs [] = (gs, [])"
| "object_base_unique gs (ob # cobs) =
     (if ob \<in> gs then object_base_unique gs cobs else (insert ob gs, ob # cobs))"

text \<open>
  The \<^verbatim>\<open>do ... while\<close> loop of \<^verbatim>\<open>BKE_scene_objects_iterator_next\<close>; the body runs before
  the test of \<^verbatim>\<open>scene_collection_iter.valid\<close>.
\<close>

function scene_objects_next_collection ::
  "collections \<Rightarrow> SceneObjectsIteratorData BLI_Iterator \<Rightarrow> SceneObjectsIteratorData BLI_Iterator" where
  "scene_objects_next_collection h iter =
     (let collection = current (scene_collection_iter (data iter));
          found = object_base_unique (visited (data iter)) (gobject (h collection))
      in if snd found \<noteq> []
         then iter\<lparr>current := hd (snd found),
                   data := (data iter)\<lparr>visited := fst found, cob_next := tl (snd found)\<rparr>\<rparr>
         else
           (let sci = BKE_scene_collections_iterator_next (scene_collection_iter (data iter));
                iter' = iter\<lparr>data := (data iter)\<lparr>visited := fst found, scene_collection_iter := sci\<rparr>\<rparr>
            in if valid sci then scene_objects_next_collection h iter'
               else iter'\<lparr>valid := False\<rparr>))"
  by pat_completeness auto
termination
  by (relation "measure (\<lambda>(h, iter). tot (data (scene_collection_iter (data iter)))
                                      - cur (data (scene_collection_iter (data iter))))")
     (auto simp: BKE_scene_collections_iterator_next_def Let_def split: if_splits)

definition BKE_scene_objects_iterator_next ::
  "collections \<Rightarrow> SceneObjectsIteratorData BLI_Iterator \<Rightarrow> SceneObjectsIteratorData BLI_Iterator" where
  "BKE_scene_objects_iterator_next h iter =
     (let found = (if cob_next (data iter) \<noteq> []
                   then object_base_unique (visited (data iter)) (cob_next (data iter))
                   else (visited (data iter), []))
      in if snd found \<noteq> []
         then iter\<lparr>current := hd (snd found),
                   data := (data iter)\<lparr>visited := fst found, cob_next := tl (snd found)\<rparr>\<rparr>
         else
           scene_objects_next_collection h
             (iter\<lparr>data := (data iter)
                     \<lparr>visited := fst found,
                      scene_collection_iter :=
                        BKE_scene_collections_iterator_next (scene_collection_iter (data iter))\<rparr>\<rparr>))"

text \<open>
  \<^verbatim>\<open>BKE_scene_objects_iterator_begin\<close>: the data comes from \<^verbatim>\<open>MEM_callocN\<close>, so
  \<^verbatim>\<open>cob_next\<close> starts as \<^verbatim>\<open>NULL\<close>; \<^verbatim>\<open>valid\<close> has been set by the loop macro.
\<close>

definition BKE_scene_objects_iterator_begin ::
  "nat \<Rightarrow> collections \<Rightarrow> Scene \<Rightarrow> SceneObjectsIteratorData BLI_Iterator option" where
  "BKE_scene_objects_iterator_begin n h scene =
     (case BKE_scene_collections_iterator_begin n h scene of
        None \<Rightarrow> None
      | Some sci \<Rightarrow>
          (let iter = \<lparr>current = 0, valid = True,
                       data = \<lparr>visited = {}, cob_next = [], scene_collection_iter = sci\<rparr>\<rparr>;
               collection = current sci
           in if gobject (h collection) \<noteq> []
              then Some (iter\<lparr>current := hd (gobject (h collection))\<rparr>)
              else Some (BKE_scene_objects_iterator_next h iter)))"

fun scene_objects_iterate ::
  "nat \<Rightarrow> collections \<Rightarrow> SceneObjectsIteratorData BLI_Iterator \<Rightarrow> object_ptr list option" where
  "scene_objects_iterate 0 h iter = None"
| "scene_objects_iterate (Suc k) h iter =
     (if valid iter
      then map_option (Cons (current iter))
             (scene_objects_iterate k h (BKE_scene_objects_iterator_next h iter))
      else Some [])"

definition FOREACH_SCENE_OBJECT :: "nat \<Rightarrow> collections \<Rightarrow> Scene \<Rightarrow> object_ptr list option" where
  "FOREACH_SCENE_OBJECT n h scene =
     (case BKE_scene_objects_iterator_begin n h scene of
        None \<Rightarrow> None
      | Some iter \<Rightarrow> scene_objects_iterate n h iter)"

subsection \<open>Moving an object between collections\<close>

text \<open>
  \<^verbatim>\<open>BKE_scene_remove_rigidbody_object\<close> belongs to the physics code and touches no
  collection. The loop body of \<^verbatim>\<open>scene_collections_object_remove\<close> changes \<^verbatim>\<open>gobject\<close> lists
  and caches only, so the iterator's array stays the one built at its start.
\<close>

definition scene_collections_object_remove ::
  "nat \<Rightarrow> world \<Rightarrow> Scene \<Rightarrow> object_ptr \<Rightarrow> bool \<Rightarrow> collection_ptr option \<Rightarrow> (bool \<times> world) option" where
  "scene_collections_object_remove n s scene ob free_us collection_skip =
     (case FOREACH_SCENE_COLLECTION n (colls s) scene of
        None \<Rightarrow> None
      | Some cs \<Rightarrow>
          (case fold_opt
                  (\<lambda>collection (removed, s').
                     if Some collection \<noteq> collection_skip
                     then (case collection_object_remove n s' collection ob free_us of
                             None \<Rightarrow> None
                           | Some (r, s'') \<Rightarrow> Some (removed \<or> r, s''))
                     else Some (removed, s'))
                  cs (False, s) of
             None \<Rightarrow> None
           | Some (removed, s1) \<Rightarrow> Some (removed, BKE_main_collection_sync s1)))"

definition BKE_collection_object_move ::
  "nat \<Rightarrow> world \<Rightarrow> Scene \<Rightarrow> collection_ptr option \<Rightarrow> collection_ptr option \<Rightarrow> object_ptr
     \<Rightarrow> world option" where
  "BKE_collection_object_move n s scene collection_dst collection_src ob =
     (if collection_src \<noteq> None then
        (case BKE_collection_object_add n s collection_dst (Some ob) of
           None \<Rightarrow> None
         | Some (True, s1) \<Rightarrow>
             map_option snd (BKE_collection_object_remove n s1 collection_src (Some ob) False)
         | Some (False, s1) \<Rightarrow> Some s1)
      else
        (case BKE_collection_object_add n s collection_dst (Some ob) of
           None \<Rightarrow> None
         | Some (added, s1) \<Rightarrow>
             map_option snd (scene_collections_object_remove n s1 scene ob False collection_dst)))"

section \<open>The graph of collections and its invariants\<close>

text \<open>
  The child-edges and the parent-back-references, both as sets of pairs (parent, child).
\<close>

definition child_rel :: "collections \<Rightarrow> (collection_ptr \<times> collection_ptr) set" where
  "child_rel h = {(p, c). c \<in> set (children (h p))}"

definition parent_rel :: "collections \<Rightarrow> (collection_ptr \<times> collection_ptr) set" where
  "parent_rel h = {(p, c). p \<in> set (parents (h c))}"

text \<open>
  For every child-edge there is exactly one parent-back-reference, and for every
  parent-back-reference exactly one child-edge.
\<close>

definition links_symmetric :: "collections \<Rightarrow> bool" where
  "links_symmetric h \<longleftrightarrow>
     (\<forall>p c. (c \<in> set (children (h p)) \<longrightarrow> count_list (parents (h c)) p = 1) \<and>
            (p \<in> set (parents (h c)) \<longrightarrow> count_list (children (h p)) c = 1))"

text \<open>
  The invariants of the data model: finitely many edges (the memory is finite), no cycle,
  and symmetric link tables.
\<close>

definition graph_inv :: "collections \<Rightarrow> bool" where
  "graph_inv h \<longleftrightarrow> finite (child_rel h) \<and> acyclic (child_rel h) \<and> links_symmetric h"

text \<open>The objects placed in a collection or in one below it.\<close>

definition objects_below :: "collections \<Rightarrow> collection_ptr \<Rightarrow> object_ptr set" where
  "objects_below h collection =
     {ob. \<exists>c. (collection, c) \<in> (child_rel h)\<^sup>* \<and> ob \<in> set (gobject (h c))}"



text \<open>What \<^verbatim>\<open>collection_object_cache_free\<close> does to one collection.\<close>

definition cache_cleared :: "Collection \<Rightarrow> Collection" where
  "cache_cleared c = c\<lparr>flag := flag c AND NOT COLLECTION_HAS_OBJECT_CACHE, object_cache := []\<rparr>"

definition clear_caches :: "collection_ptr set \<Rightarrow> collections \<Rightarrow> collections" where
  "clear_caches S h = (\<lambda>x. if x \<in> S then cache_cleared (h x) else h x)"

subsection \<open>Sequences of child-edge edits\<close>

datatype child_op =
  Add_child collection_ptr collection_ptr "32 word" bool
| Remove_child collection_ptr collection_ptr

fun run_child_op :: "nat \<Rightarrow> child_op \<Rightarrow> world \<Rightarrow> (bool \<times> world) option" where
  "run_child_op n (Add_child parent collection flg add_us) s =
     collection_child_add n s parent collection flg add_us"
| "run_child_op n (Remove_child parent collection) s =
     collection_child_remove n s parent collection"

text \<open>
  A sequence of calls that each succeeded, every call with a bound of its own: the result
  is \<open>Some\<close> of the final state when every call returned \<^verbatim>\<open>true\<close>.
\<close>

fun run_child_ops :: "(nat \<times> child_op) list \<Rightarrow> world \<Rightarrow> world option" where
  "run_child_ops [] s = Some s"
| "run_child_ops ((n, x) # xs) s =
     (case run_child_op n x s of
        Some (True, s') \<Rightarrow> run_child_ops xs s'
      | _ \<Rightarrow> None)"

fun links_in_main :: "child_op \<Rightarrow> bool" where
  "links_in_main (Add_child parent collection flg add_us) \<longleftrightarrow> flg AND LIB_ID_CREATE_NO_MAIN = 0"
| "links_in_main (Remove_child parent collection) \<longleftrightarrow> True"

section \<open>Example scenes\<close>

definition empty_collection :: Collection where
  "empty_collection =
     \<lparr>id_us = 0, flag = 0, gobject = [], children = [], parents = [], object_cache = []\<rparr>"

definition plain_object :: Object where
  "plain_object = \<lparr>ob_us = 1, dup_group = None\<rparr>"

text \<open>
  The scenario of the specification: master 0 with children 1 (A) and 2 (B), A with child
  3 (C), and the object 7 placed in B and in C.
\<close>

definition scenario :: collections where
  "scenario =
     (\<lambda>_. empty_collection)
       (0 := empty_collection\<lparr>flag := COLLECTION_IS_MASTER, children := [1, 2]\<rparr>,
        1 := empty_collection\<lparr>children := [3], parents := [0]\<rparr>,
        2 := empty_collection\<lparr>gobject := [7], parents := [0]\<rparr>,
        3 := empty_collection\<lparr>gobject := [7], parents := [1]\<rparr>)"

definition scenario_world :: world where
  "scenario_world = \<lparr>colls = scenario, objs = (\<lambda>_. plain_object), sync_requests = 0\<rparr>"

definition scene0 :: Scene where
  "scene0 = \<lparr>master_collection = 0\<rparr>"


text \<open>A scene whose master collection holds the object 7 and has no child.\<close>

definition master_only :: collections where
  "master_only =
     (\<lambda>_. empty_collection)
       (0 := empty_collection\<lparr>flag := COLLECTION_IS_MASTER, gobject := [7]\<rparr>)"

text \<open>Nothing linked yet: every collection is empty.\<close>

definition empty_world :: world where
  "empty_world = \<lparr>colls = (\<lambda>_. empty_collection), objs = (\<lambda>_. plain_object), sync_requests = 0\<rparr>"

text \<open>
  The scenario with one more object, 9, that instances the collection A (its \<^verbatim>\<open>dup_group\<close>
  is 1) and is placed nowhere yet.
\<close>

definition instancing_world :: world where
  "instancing_world =
     scenario_world\<lparr>objs := (\<lambda>_. plain_object)(9 := \<lparr>ob_us = 1, dup_group = Some 1\<rparr>)\<rparr>"

text \<open>
  The state after \<^verbatim>\<open>collection_child_add(0, 1, LIB_ID_CREATE_NO_MAIN, false)\<close> on the empty
  world: the child-edge from 0 to 1 is there, the parent-back-reference is not.
\<close>

definition unsynced_world :: world where
  "unsynced_world =
     empty_world\<lparr>colls := (\<lambda>_. empty_collection)(0 := empty_collection\<lparr>children := [1]\<rparr>)\<rparr>"

text \<open>
  The scenario after \<^verbatim>\<open>BKE_collection_object_cache_get\<close> of the master and of B: both hold
  a filled cache with the validity bit set.
\<close>

definition cached_scenario :: collections where
  "cached_scenario =
     scenario
       (0 := (scenario 0)\<lparr>flag := COLLECTION_IS_MASTER OR COLLECTION_HAS_OBJECT_CACHE,
                            object_cache := [new_base (scast COLLECTION_IS_MASTER) 7]\<rparr>,
        2 := (scenario 2)\<lparr>flag := COLLECTION_HAS_OBJECT_CACHE,
                            object_cache := [new_base 0 7]\<rparr>)"

definition cached_world :: world where
  "cached_world = \<lparr>colls = cached_scenario, objs = (\<lambda>_. plain_object), sync_requests = 0\<rparr>"

section \<open>Properties of the model\<close>

lemma eventually_all_list:
  assumes "\<forall>x\<in>set xs. \<exists>N. \<forall>n\<ge>N. P n x"
  shows "\<exists>N::nat. \<forall>n\<ge>N. \<forall>x\<in>set xs. P n x"
  using assms
proof (induction xs)
  case Nil
  then show ?case by simp
next
  case (Cons a xs)
  then obtain N1 where N1: "\<forall>n\<ge>N1. \<forall>x\<in>set xs. P n x" by auto
  from Cons.prems obtain N2 where N2: "\<forall>n\<ge>N2. P n a" by auto
  have "\<forall>n\<ge>max N1 N2. \<forall>x\<in>set (a # xs). P n x"
    using N1 N2 by auto
  then show ?case by blast
qed

lemma any_opt_True: "any_opt f xs = Some True \<Longrightarrow> \<exists>x\<in>set xs. f x = Some True"
  by (induction xs) (auto split: option.splits bool.splits)

lemma any_opt_False: "any_opt f xs = Some False \<Longrightarrow> \<forall>x\<in>set xs. f x = Some False"
  by (induction xs) (auto split: option.splits bool.splits)

lemma any_opt_total: "\<forall>x\<in>set xs. f x \<noteq> None \<Longrightarrow> any_opt f xs \<noteq> None"
  by (induction xs) (auto split: option.splits bool.splits)

lemma any_opt_all_False: "\<forall>x\<in>set xs. f x = Some False \<Longrightarrow> any_opt f xs = Some False"
  by (induction xs) auto

lemma fold_opt_total: "\<forall>x\<in>set xs. \<forall>s. f x s \<noteq> None \<Longrightarrow> fold_opt f xs s \<noteq> None"
  by (induction xs arbitrary: s) (auto split: option.splits)

lemma fold_opt_inv:
  assumes "I s" and "\<And>x s. x \<in> set xs \<Longrightarrow> I s \<Longrightarrow> \<exists>s'. f x s = Some s' \<and> I s'"
  shows "\<exists>s'. fold_opt f xs s = Some s' \<and> I s'"
  using assms
proof (induction xs arbitrary: s)
  case Nil
  then show ?case by simp
next
  case (Cons a xs)
  from Cons.prems obtain s1 where s1: "f a s = Some s1" "I s1" by fastforce
  have "\<exists>s'. fold_opt f xs s1 = Some s' \<and> I s'"
    by (rule Cons.IH [OF s1(2)]) (use Cons.prems(2) in auto)
  with s1 show ?case by simp
qed

lemma fold_opt_step_inv:
  assumes "fold_opt f xs s = Some s'" and "I s"
    and "\<And>x s s'. x \<in> set xs \<Longrightarrow> I s \<Longrightarrow> f x s = Some s' \<Longrightarrow> I s'"
  shows "I s'"
  using assms
proof (induction xs arbitrary: s)
  case Nil
  then show ?case by simp
next
  case (Cons a xs)
  from Cons.prems(1) obtain s1 where s1: "f a s = Some s1" "fold_opt f xs s1 = Some s'"
    by (auto split: option.splits)
  have "I s1" using Cons.prems(3) [of a s s1] Cons.prems(2) s1(1) by simp
  show ?case
    by (rule Cons.IH [OF s1(2) \<open>I s1\<close>]) (use Cons.prems(3) in auto)
qed

subsection \<open>Ancestor check\<close>

lemma parent_rel_iff: "(p, c) \<in> parent_rel h \<longleftrightarrow> p \<in> set (parents (h c))"
  by (simp add: parent_rel_def)

lemma child_rel_iff: "(p, c) \<in> child_rel h \<longleftrightarrow> c \<in> set (children (h p))"
  by (simp add: child_rel_def)

lemma find_cycle_sound:
  "BKE_collection_find_cycle n h a c = Some b \<Longrightarrow> b \<longleftrightarrow> (c, a) \<in> (parent_rel h)\<^sup>*"
proof (induction n arbitrary: a b)
  case 0
  then show ?case by simp
next
  case (Suc n)
  show ?case
  proof (cases "c = a")
    case True
    with Suc.prems show ?thesis by simp
  next
    case False
    with Suc.prems have res: "any_opt (\<lambda>parent. BKE_collection_find_cycle n h parent c) (parents (h a)) = Some b"
      by simp
    show ?thesis
    proof (cases b)
      case True
      from res True have "any_opt (\<lambda>parent. BKE_collection_find_cycle n h parent c) (parents (h a)) = Some True"
        by simp
      from any_opt_True [OF this] obtain p where
        p: "p \<in> set (parents (h a))" "BKE_collection_find_cycle n h p c = Some True" by blast
      from Suc.IH [OF p(2)] have "(c, p) \<in> (parent_rel h)\<^sup>*" by simp
      moreover from p(1) have "(p, a) \<in> parent_rel h" by (simp add: parent_rel_iff)
      ultimately show ?thesis using True by (auto intro: rtrancl_into_rtrancl)
    next
      case bF: False
      from res bF have "any_opt (\<lambda>parent. BKE_collection_find_cycle n h parent c) (parents (h a)) = Some False"
        by simp
      from any_opt_False [OF this]
      have all: "\<forall>p\<in>set (parents (h a)). BKE_collection_find_cycle n h p c = Some False" .
      have "(c, a) \<notin> (parent_rel h)\<^sup>*"
      proof
        assume "(c, a) \<in> (parent_rel h)\<^sup>*"
        then show False
        proof (cases rule: rtranclE)
          case base
          with False show False by simp
        next
          case (step p)
          then have "p \<in> set (parents (h a))" by (simp add: parent_rel_iff)
          with all have "BKE_collection_find_cycle n h p c = Some False" by blast
          from Suc.IH [OF this] step(1) show False by simp
        qed
      qed
      with bF show ?thesis by simp
    qed
  qed
qed

lemma find_cycle_terminates:
  assumes "wf (parent_rel h)"
  shows "\<exists>N. \<forall>n\<ge>N. BKE_collection_find_cycle n h a c \<noteq> None"
  using assms
proof (induction a rule: wf_induct_rule)
  case (less a)
  have "\<forall>p\<in>set (parents (h a)). \<exists>N. \<forall>n\<ge>N. BKE_collection_find_cycle n h p c \<noteq> None"
    using less.IH by (simp add: parent_rel_iff)
  from eventually_all_list [OF this]
  obtain N where N: "\<forall>n\<ge>N. \<forall>p\<in>set (parents (h a)). BKE_collection_find_cycle n h p c \<noteq> None"
    by blast
  have "BKE_collection_find_cycle n h a c \<noteq> None" if "n \<ge> Suc N" for n
  proof -
    from that obtain m where m: "n = Suc m" "m \<ge> N" by (cases n) auto
    with N have "any_opt (\<lambda>p. BKE_collection_find_cycle m h p c) (parents (h a)) \<noteq> None"
      by (intro any_opt_total) blast
    with m show ?thesis by (cases "c = a") auto
  qed
  then show ?case by blast
qed

lemma find_cycle_correct:
  assumes "wf (parent_rel h)"
  shows "\<exists>N. \<forall>n\<ge>N. BKE_collection_find_cycle n h a c = Some ((c, a) \<in> (parent_rel h)\<^sup>*)"
proof -
  from find_cycle_terminates [OF assms] obtain N where
    N: "\<forall>n\<ge>N. BKE_collection_find_cycle n h a c \<noteq> None" by blast
  have "BKE_collection_find_cycle n h a c = Some ((c, a) \<in> (parent_rel h)\<^sup>*)" if "n \<ge> N" for n
  proof -
    from N that obtain b where b: "BKE_collection_find_cycle n h a c = Some b" by auto
    from find_cycle_sound [OF b] b show ?thesis by simp
  qed
  then show ?thesis by blast
qed

subsection \<open>Descendant check\<close>

lemma find_child_recursive_sound:
  "collection_find_child_recursive n h p c = Some b \<Longrightarrow> b \<longleftrightarrow> (p, c) \<in> (child_rel h)\<^sup>+"
proof (induction n arbitrary: p b)
  case 0
  then show ?case by simp
next
  case (Suc n)
  let ?f = "\<lambda>child. if child = c then Some True else collection_find_child_recursive n h child c"
  from Suc.prems have res: "any_opt ?f (children (h p)) = Some b" by simp
  show ?case
  proof (cases b)
    case True
    from res True have "any_opt ?f (children (h p)) = Some True" by simp
    from any_opt_True [OF this] obtain ch where ch: "ch \<in> set (children (h p))" "?f ch = Some True"
      by blast
    have e: "(p, ch) \<in> child_rel h" using ch(1) by (simp add: child_rel_iff)
    have "(p, c) \<in> (child_rel h)\<^sup>+"
    proof (cases "ch = c")
      case True
      with e show ?thesis by auto
    next
      case False
      with ch(2) have "collection_find_child_recursive n h ch c = Some True" by simp
      from Suc.IH [OF this] have "(ch, c) \<in> (child_rel h)\<^sup>+" by simp
      with e show ?thesis by (meson trancl_into_trancl2)
    qed
    with True show ?thesis by simp
  next
    case bF: False
    from res bF have "any_opt ?f (children (h p)) = Some False" by simp
    from any_opt_False [OF this] have all: "\<forall>ch\<in>set (children (h p)). ?f ch = Some False" .
    have "(p, c) \<notin> (child_rel h)\<^sup>+"
    proof
      assume "(p, c) \<in> (child_rel h)\<^sup>+"
      then obtain ch where ch: "(p, ch) \<in> child_rel h" "(ch, c) \<in> (child_rel h)\<^sup>*"
        by (meson tranclD)
      then have mem: "ch \<in> set (children (h p))" by (simp add: child_rel_iff)
      with all have f: "?f ch = Some False" by blast
      then have ne: "ch \<noteq> c" by (auto split: if_splits)
      with f have "collection_find_child_recursive n h ch c = Some False" by simp
      from Suc.IH [OF this] have "(ch, c) \<notin> (child_rel h)\<^sup>+" by simp
      with ch(2) ne show False by (auto dest: rtranclD)
    qed
    with bF show ?thesis by simp
  qed
qed

lemma find_child_recursive_terminates:
  assumes "wf ((child_rel h)\<inverse>)"
  shows "\<exists>N. \<forall>n\<ge>N. collection_find_child_recursive n h p c \<noteq> None"
  using assms
proof (induction p rule: wf_induct_rule)
  case (less p)
  have "\<forall>ch\<in>set (children (h p)). \<exists>N. \<forall>n\<ge>N. collection_find_child_recursive n h ch c \<noteq> None"
    using less.IH by (simp add: child_rel_iff)
  from eventually_all_list [OF this]
  obtain N where N: "\<forall>n\<ge>N. \<forall>ch\<in>set (children (h p)). collection_find_child_recursive n h ch c \<noteq> None"
    by blast
  have "collection_find_child_recursive n h p c \<noteq> None" if "n \<ge> Suc N" for n
  proof -
    from that obtain m where m: "n = Suc m" "m \<ge> N" by (cases n) auto
    with N have "any_opt (\<lambda>child. if child = c then Some True else collection_find_child_recursive m h child c)
        (children (h p)) \<noteq> None"
      by (intro any_opt_total) auto
    with m show ?thesis by simp
  qed
  then show ?case by blast
qed

lemma is_in_scene_terminates:
  assumes "wf (parent_rel h)"
  shows "\<exists>N. \<forall>n\<ge>N. BKE_collection_is_in_scene n h c \<noteq> None"
  using assms
proof (induction c rule: wf_induct_rule)
  case (less c)
  have "\<forall>p\<in>set (parents (h c)). \<exists>N. \<forall>n\<ge>N. BKE_collection_is_in_scene n h p \<noteq> None"
    using less.IH by (simp add: parent_rel_iff)
  from eventually_all_list [OF this]
  obtain N where N: "\<forall>n\<ge>N. \<forall>p\<in>set (parents (h c)). BKE_collection_is_in_scene n h p \<noteq> None"
    by blast
  have "BKE_collection_is_in_scene n h c \<noteq> None" if "n \<ge> Suc N" for n
  proof -
    from that obtain m where m: "n = Suc m" "m \<ge> N" by (cases n) auto
    with N have "any_opt (\<lambda>p. BKE_collection_is_in_scene m h p) (parents (h c)) \<noteq> None"
      by (intro any_opt_total) blast
    with m show ?thesis by (cases "flag (h c) AND COLLECTION_IS_MASTER = 0") auto
  qed
  then show ?case by blast
qed

subsection \<open>Cache invalidation\<close>

lemma has_cache_bit_cleared [simp]:
  "(f AND NOT COLLECTION_HAS_OBJECT_CACHE) AND COLLECTION_HAS_OBJECT_CACHE = 0"
  by (simp add: and.assoc)

lemma has_cache_bit_set [simp]:
  "(f OR COLLECTION_HAS_OBJECT_CACHE) AND COLLECTION_HAS_OBJECT_CACHE \<noteq> 0"
proof -
  have "(f OR COLLECTION_HAS_OBJECT_CACHE) AND COLLECTION_HAS_OBJECT_CACHE = COLLECTION_HAS_OBJECT_CACHE"
    by (rule bit_eqI) (auto simp: bit_and_iff bit_or_iff)
  moreover have "COLLECTION_HAS_OBJECT_CACHE \<noteq> 0"
    by (simp add: COLLECTION_HAS_OBJECT_CACHE_def)
  ultimately show ?thesis by simp
qed

lemma cache_cleared_fields [simp]:
  "children (cache_cleared c) = children c"
  "parents (cache_cleared c) = parents c"
  "gobject (cache_cleared c) = gobject c"
  "id_us (cache_cleared c) = id_us c"
  "object_cache (cache_cleared c) = []"
  "flag (cache_cleared c) AND COLLECTION_HAS_OBJECT_CACHE = 0"
  by (simp_all add: cache_cleared_def)

lemma cache_cleared_idem [simp]: "cache_cleared (cache_cleared c) = cache_cleared c"
  by (simp add: cache_cleared_def and.assoc)

lemma clear_caches_fields [simp]:
  "children (clear_caches S h x) = children (h x)"
  "parents (clear_caches S h x) = parents (h x)"
  "gobject (clear_caches S h x) = gobject (h x)"
  "id_us (clear_caches S h x) = id_us (h x)"
  by (simp_all add: clear_caches_def)

lemma clear_caches_rel [simp]:
  "parent_rel (clear_caches S h) = parent_rel h"
  "child_rel (clear_caches S h) = child_rel h"
  by (simp_all add: parent_rel_def child_rel_def)

lemma clear_caches_twice: "clear_caches S (clear_caches T h) = clear_caches (S \<union> T) h"
  by (auto simp: clear_caches_def fun_eq_iff)

lemma clear_caches_single:
  "h(c := (h c)\<lparr>flag := flag (h c) AND NOT COLLECTION_HAS_OBJECT_CACHE, object_cache := []\<rparr>)
     = clear_caches {c} h"
  by (auto simp: clear_caches_def cache_cleared_def fun_eq_iff)

lemma ancestors_unfold:
  "{x. (x, c) \<in> (parent_rel h)\<^sup>*} = {c} \<union> (\<Union>p\<in>set (parents (h c)). {x. (x, p) \<in> (parent_rel h)\<^sup>*})"
proof -
  have "(x, c) \<in> (parent_rel h)\<^sup>* \<longleftrightarrow> x = c \<or> (\<exists>p\<in>set (parents (h c)). (x, p) \<in> (parent_rel h)\<^sup>*)" for x
  proof
    assume "(x, c) \<in> (parent_rel h)\<^sup>*"
    then show "x = c \<or> (\<exists>p\<in>set (parents (h c)). (x, p) \<in> (parent_rel h)\<^sup>*)"
      by (cases rule: rtranclE) (auto simp: parent_rel_iff)
  next
    assume "x = c \<or> (\<exists>p\<in>set (parents (h c)). (x, p) \<in> (parent_rel h)\<^sup>*)"
    then show "(x, c) \<in> (parent_rel h)\<^sup>*"
      by (auto simp: parent_rel_iff [symmetric] intro: rtrancl_into_rtrancl)
  qed
  then show ?thesis by auto
qed

lemma cache_free_fold:
  assumes step: "\<And>h' p h''. collection_object_cache_free n h' p = Some h''
            \<Longrightarrow> h'' = clear_caches {x. (x, p) \<in> (parent_rel h')\<^sup>*} h'"
    and "fold_opt (\<lambda>parent h'. collection_object_cache_free n h' parent) ps (clear_caches S h) = Some r"
  shows "r = clear_caches (S \<union> (\<Union>p\<in>set ps. {x. (x, p) \<in> (parent_rel h)\<^sup>*})) h"
  using assms(2)
proof (induction ps arbitrary: S)
  case Nil
  then show ?case by simp
next
  case (Cons p ps)
  from Cons.prems obtain h1 where
    h1: "collection_object_cache_free n (clear_caches S h) p = Some h1"
    and rest: "fold_opt (\<lambda>parent h'. collection_object_cache_free n h' parent) ps h1 = Some r"
    by (auto split: option.splits)
  from step [OF h1] have "h1 = clear_caches ({x. (x, p) \<in> (parent_rel h)\<^sup>*} \<union> S) h"
    by (simp add: clear_caches_twice)
  with rest have "r = clear_caches (({x. (x, p) \<in> (parent_rel h)\<^sup>*} \<union> S)
      \<union> (\<Union>p\<in>set ps. {x. (x, p) \<in> (parent_rel h)\<^sup>*})) h"
    using Cons.IH by simp
  moreover have "({x. (x, p) \<in> (parent_rel h)\<^sup>*} \<union> S) \<union> (\<Union>p\<in>set ps. {x. (x, p) \<in> (parent_rel h)\<^sup>*})
      = S \<union> (\<Union>p\<in>set (p # ps). {x. (x, p) \<in> (parent_rel h)\<^sup>*})"
    by auto
  ultimately show ?case by simp
qed

lemma cache_free_result:
  "collection_object_cache_free n h c = Some h'
     \<Longrightarrow> h' = clear_caches {x. (x, c) \<in> (parent_rel h)\<^sup>*} h"
proof (induction n arbitrary: h c h')
  case 0
  then show ?case by simp
next
  case (Suc n)
  from Suc.prems have
    "fold_opt (\<lambda>parent h'. collection_object_cache_free n h' parent) (parents (h c)) (clear_caches {c} h) = Some h'"
    by (simp add: clear_caches_single Let_def)
  from cache_free_fold [OF Suc.IH this]
  show ?case by (subst ancestors_unfold) simp
qed

lemma cache_free_terminates:
  assumes "wf (parent_rel h)"
  shows "\<exists>N. \<forall>n\<ge>N. \<forall>S. collection_object_cache_free n (clear_caches S h) c \<noteq> None"
  using assms
proof (induction c rule: wf_induct_rule)
  case (less c)
  have "\<forall>p\<in>set (parents (h c)). \<exists>N. \<forall>n\<ge>N. \<forall>S. collection_object_cache_free n (clear_caches S h) p \<noteq> None"
    using less.IH by (simp add: parent_rel_iff)
  from eventually_all_list [OF this]
  obtain N where N: "\<forall>n\<ge>N. \<forall>p\<in>set (parents (h c)). \<forall>S. collection_object_cache_free n (clear_caches S h) p \<noteq> None"
    by blast
  have "collection_object_cache_free n (clear_caches S h) c \<noteq> None" if "n \<ge> Suc N" for n S
  proof -
    from that obtain m where m: "n = Suc m" "m \<ge> N" by (cases n) auto
    let ?I = "\<lambda>h'. \<exists>T. h' = clear_caches T h"
    have "\<exists>s'. fold_opt (\<lambda>parent h'. collection_object_cache_free m h' parent) (parents (h c))
            (clear_caches {c} (clear_caches S h)) = Some s' \<and> ?I s'"
    proof (rule fold_opt_inv [where I = ?I])
      show "?I (clear_caches {c} (clear_caches S h))"
        by (auto simp: clear_caches_twice)
    next
      fix p s assume p: "p \<in> set (parents (h c))" and "?I s"
      then obtain T where T: "s = clear_caches T h" by blast
      from N m p have "collection_object_cache_free m (clear_caches T h) p \<noteq> None" by blast
      then obtain s' where s': "collection_object_cache_free m (clear_caches T h) p = Some s'" by auto
      from cache_free_result [OF this] have "?I s'" by (auto simp: clear_caches_twice)
      with s' T show "\<exists>s'. collection_object_cache_free m s p = Some s' \<and> ?I s'" by blast
    qed
    with m show ?thesis by (auto simp: clear_caches_single Let_def)
  qed
  then show ?case by blast
qed

lemma clear_caches_empty [simp]: "clear_caches {} h = h"
  by (simp add: clear_caches_def)

lemma cache_free_correct:
  assumes "wf (parent_rel h)"
  shows "\<exists>N. \<forall>n\<ge>N. collection_object_cache_free n h c
            = Some (clear_caches {x. (x, c) \<in> (parent_rel h)\<^sup>*} h)"
proof -
  from cache_free_terminates [OF assms, of c] obtain N where
    N: "\<forall>n\<ge>N. \<forall>S. collection_object_cache_free n (clear_caches S h) c \<noteq> None" by blast
  have "collection_object_cache_free n h c = Some (clear_caches {x. (x, c) \<in> (parent_rel h)\<^sup>*} h)"
    if "n \<ge> N" for n
  proof -
    from N that have "collection_object_cache_free n (clear_caches {} h) c \<noteq> None" by blast
    then obtain h' where h': "collection_object_cache_free n h c = Some h'" by auto
    from cache_free_result [OF h'] h' show ?thesis by simp
  qed
  then show ?thesis by blast
qed

subsection \<open>Cache fill\<close>

lemma new_base_object [simp]: "object (new_base r ob) = ob"
  by (simp add: new_base_def Let_def)

lemma cache_fill_objects_set:
  "object ` set (cache_fill_objects r obs lb) = object ` set lb \<union> set obs"
  by (induction obs arbitrary: lb) auto

lemma rtrancl_children_unfold:
  "(c, d) \<in> (child_rel h)\<^sup>* \<longleftrightarrow> d = c \<or> (\<exists>ch\<in>set (children (h c)). (ch, d) \<in> (child_rel h)\<^sup>*)"
proof
  assume "(c, d) \<in> (child_rel h)\<^sup>*"
  then show "d = c \<or> (\<exists>ch\<in>set (children (h c)). (ch, d) \<in> (child_rel h)\<^sup>*)"
    by (cases rule: converse_rtranclE) (auto simp: child_rel_iff)
next
  assume "d = c \<or> (\<exists>ch\<in>set (children (h c)). (ch, d) \<in> (child_rel h)\<^sup>*)"
  then show "(c, d) \<in> (child_rel h)\<^sup>*"
    by (auto simp: child_rel_iff [symmetric] intro: converse_rtrancl_into_rtrancl)
qed

lemma objects_below_unfold:
  "objects_below h c = set (gobject (h c)) \<union> (\<Union>ch\<in>set (children (h c)). objects_below h ch)"
proof (rule set_eqI)
  fix ob
  have "ob \<in> objects_below h c \<longleftrightarrow>
      (\<exists>d. (d = c \<or> (\<exists>ch\<in>set (children (h c)). (ch, d) \<in> (child_rel h)\<^sup>*)) \<and> ob \<in> set (gobject (h d)))"
    unfolding objects_below_def mem_Collect_eq
    by (subst rtrancl_children_unfold) (rule refl)
  also have "\<dots> \<longleftrightarrow> ob \<in> set (gobject (h c)) \<or>
      (\<exists>ch\<in>set (children (h c)). \<exists>d. (ch, d) \<in> (child_rel h)\<^sup>* \<and> ob \<in> set (gobject (h d)))"
    by blast
  also have "\<dots> \<longleftrightarrow> ob \<in> set (gobject (h c)) \<union> (\<Union>ch\<in>set (children (h c)). objects_below h ch)"
    unfolding objects_below_def by simp
  finally show "ob \<in> objects_below h c \<longleftrightarrow>
      ob \<in> set (gobject (h c)) \<union> (\<Union>ch\<in>set (children (h c)). objects_below h ch)" .
qed

lemma cache_fill_fold:
  assumes step: "\<And>lb ch lb'. collection_object_cache_fill n h lb ch r = Some lb'
            \<Longrightarrow> object ` set lb' = object ` set lb \<union> objects_below h ch"
    and "fold_opt (\<lambda>child lb'. collection_object_cache_fill n h lb' child r) chs lb = Some res"
  shows "object ` set res = object ` set lb \<union> (\<Union>ch\<in>set chs. objects_below h ch)"
  using assms(2)
proof (induction chs arbitrary: lb)
  case Nil
  then show ?case by simp
next
  case (Cons ch chs)
  from Cons.prems obtain lb1 where
    lb1: "collection_object_cache_fill n h lb ch r = Some lb1"
    and rest: "fold_opt (\<lambda>child lb'. collection_object_cache_fill n h lb' child r) chs lb1 = Some res"
    by (auto split: option.splits)
  from Cons.IH [OF rest] step [OF lb1] show ?case by auto
qed

lemma cache_fill_result:
  "collection_object_cache_fill n h lb c r = Some lb'
     \<Longrightarrow> object ` set lb' = object ` set lb \<union> objects_below h c"
proof (induction n arbitrary: lb c r lb')
  case 0
  then show ?case by simp
next
  case (Suc n)
  let ?r = "scast (flag (h c)) OR r"
  from Suc.prems have
    "fold_opt (\<lambda>child lb'. collection_object_cache_fill n h lb' child ?r) (children (h c))
       (cache_fill_objects ?r (gobject (h c)) lb) = Some lb'"
    by (simp add: Let_def)
  from cache_fill_fold [OF Suc.IH this]
  have "object ` set lb' = object ` set (cache_fill_objects ?r (gobject (h c)) lb)
      \<union> (\<Union>ch\<in>set (children (h c)). objects_below h ch)" .
  also have "\<dots> = object ` set lb \<union> (set (gobject (h c)) \<union> (\<Union>ch\<in>set (children (h c)). objects_below h ch))"
    by (simp add: cache_fill_objects_set Un_assoc)
  also have "\<dots> = object ` set lb \<union> objects_below h c"
    by (subst (2) objects_below_unfold) (rule refl)
  finally show ?case .
qed

lemma cache_fill_terminates:
  assumes "wf ((child_rel h)\<inverse>)"
  shows "\<exists>N. \<forall>n\<ge>N. \<forall>lb r. collection_object_cache_fill n h lb c r \<noteq> None"
  using assms
proof (induction c rule: wf_induct_rule)
  case (less c)
  have "\<forall>ch\<in>set (children (h c)). \<exists>N. \<forall>n\<ge>N. \<forall>lb r. collection_object_cache_fill n h lb ch r \<noteq> None"
    using less.IH by (simp add: child_rel_iff)
  from eventually_all_list [OF this]
  obtain N where N: "\<forall>n\<ge>N. \<forall>ch\<in>set (children (h c)). \<forall>lb r. collection_object_cache_fill n h lb ch r \<noteq> None"
    by blast
  have "collection_object_cache_fill n h lb c r \<noteq> None" if "n \<ge> Suc N" for n lb r
  proof -
    from that obtain m where m: "n = Suc m" "m \<ge> N" by (cases n) auto
    have "fold_opt (\<lambda>child lb'. collection_object_cache_fill m h lb' child (scast (flag (h c)) OR r))
            (children (h c)) (cache_fill_objects (scast (flag (h c)) OR r) (gobject (h c)) lb) \<noteq> None"
      by (rule fold_opt_total) (use N m in blast)
    with m show ?thesis by (simp add: Let_def)
  qed
  then show ?case by blast
qed

subsection \<open>Reading the cache\<close>

lemma has_cache_nonzero [simp]: "COLLECTION_HAS_OBJECT_CACHE \<noteq> 0"
  by (simp add: COLLECTION_HAS_OBJECT_CACHE_def)

lemma cache_get_valid:
  "flag (h c) AND COLLECTION_HAS_OBJECT_CACHE \<noteq> 0
     \<Longrightarrow> BKE_collection_object_cache_get n h c = Some (object_cache (h c), h)"
  by (simp add: BKE_collection_object_cache_get_def)

lemma cache_get_invalid:
  assumes "flag (h c) AND COLLECTION_HAS_OBJECT_CACHE = 0"
    and "collection_object_cache_fill n h (object_cache (h c)) c 0 = Some lb"
  shows "BKE_collection_object_cache_get n h c
           = Some (lb, h(c := (h c)\<lparr>flag := flag (h c) OR COLLECTION_HAS_OBJECT_CACHE,
                                      object_cache := lb\<rparr>))"
  using assms by (simp add: BKE_collection_object_cache_get_def Let_def)

lemma cache_get_stored:
  assumes "BKE_collection_object_cache_get n h c = Some (lb, h')"
  shows "object_cache (h' c) = lb \<and> flag (h' c) AND COLLECTION_HAS_OBJECT_CACHE \<noteq> 0"
proof (cases "flag (h c) AND COLLECTION_HAS_OBJECT_CACHE = 0")
  case True
  with assms obtain lb0 where "collection_object_cache_fill n h (object_cache (h c)) c 0 = Some lb0"
    by (auto simp: BKE_collection_object_cache_get_def split: option.splits)
  from cache_get_invalid [OF True this] assms show ?thesis by auto
next
  case False
  from cache_get_valid [of h c n] assms False show ?thesis by auto
qed

lemma cache_get_again:
  assumes "BKE_collection_object_cache_get n h c = Some (lb, h')"
  shows "BKE_collection_object_cache_get m h' c = Some (lb, h')"
proof -
  from cache_get_stored [OF assms]
  have "object_cache (h' c) = lb" and "flag (h' c) AND COLLECTION_HAS_OBJECT_CACHE \<noteq> 0"
    by blast+
  with cache_get_valid [of h' c m] show ?thesis by simp
qed

lemma graph_inv_wf_parent: "graph_inv h \<Longrightarrow> wf (parent_rel h)" and
  graph_inv_wf_child: "graph_inv h \<Longrightarrow> wf ((child_rel h)\<inverse>)" and
  graph_inv_rel_eq: "graph_inv h \<Longrightarrow> parent_rel h = child_rel h"
proof -
  assume inv: "graph_inv h"
  then have sym: "links_symmetric h" and fin: "finite (child_rel h)" and acy: "acyclic (child_rel h)"
    by (simp_all add: graph_inv_def)
  have "c \<in> set (children (h p)) \<longleftrightarrow> p \<in> set (parents (h c))" for p c
  proof
    assume "c \<in> set (children (h p))"
    with sym have "count_list (parents (h c)) p = 1" by (simp add: links_symmetric_def)
    then show "p \<in> set (parents (h c))" by (metis count_list_0_iff zero_neq_one)
  next
    assume "p \<in> set (parents (h c))"
    with sym have "count_list (children (h p)) c = 1" by (simp add: links_symmetric_def)
    then show "c \<in> set (children (h p))" by (metis count_list_0_iff zero_neq_one)
  qed
  then show eq: "parent_rel h = child_rel h"
    by (auto simp: parent_rel_def child_rel_def)
  show "wf (parent_rel h)" unfolding eq using fin acy by (rule finite_acyclic_wf)
  show "wf ((child_rel h)\<inverse>)" using fin acy by (rule finite_acyclic_wf_converse)
qed

subsection \<open>Symmetry of the link tables, by counting\<close>

lemma links_symmetric_alt:
  "links_symmetric h \<longleftrightarrow>
     (\<forall>p c. count_list (children (h p)) c = count_list (parents (h c)) p
            \<and> count_list (children (h p)) c \<le> 1)"
proof
  assume sym: "links_symmetric h"
  show "\<forall>p c. count_list (children (h p)) c = count_list (parents (h c)) p
            \<and> count_list (children (h p)) c \<le> 1"
  proof (intro allI)
    fix p c
    from sym have a: "c \<in> set (children (h p)) \<Longrightarrow> count_list (parents (h c)) p = 1"
      and b: "p \<in> set (parents (h c)) \<Longrightarrow> count_list (children (h p)) c = 1"
      unfolding links_symmetric_def by blast+
    show "count_list (children (h p)) c = count_list (parents (h c)) p
            \<and> count_list (children (h p)) c \<le> 1"
    proof (cases "c \<in> set (children (h p))")
      case True
      from a [OF True] have pc: "count_list (parents (h c)) p = 1" .
      then have "p \<in> set (parents (h c))"
        using count_list_0_iff [of "parents (h c)" p] by simp
      from b [OF this] pc show ?thesis by simp
    next
      case False
      then have z: "count_list (children (h p)) c = 0" by simp
      have "p \<notin> set (parents (h c))"
      proof
        assume "p \<in> set (parents (h c))"
        from b [OF this] z show False by simp
      qed
      then have "count_list (parents (h c)) p = 0" by simp
      with z show ?thesis by simp
    qed
  qed
next
  assume alt: "\<forall>p c. count_list (children (h p)) c = count_list (parents (h c)) p
            \<and> count_list (children (h p)) c \<le> 1"
  show "links_symmetric h"
    unfolding links_symmetric_def
  proof (intro allI conjI impI)
    fix p c
    assume "c \<in> set (children (h p))"
    then have "count_list (children (h p)) c \<noteq> 0" by (metis count_list_0_iff)
    moreover from alt have "count_list (children (h p)) c = count_list (parents (h c)) p"
      and "count_list (children (h p)) c \<le> 1" by blast+
    ultimately show "count_list (parents (h c)) p = 1" by linarith
  next
    fix p c
    assume "p \<in> set (parents (h c))"
    then have "count_list (parents (h c)) p \<noteq> 0" by (metis count_list_0_iff)
    moreover from alt have "count_list (children (h p)) c = count_list (parents (h c)) p"
      and "count_list (children (h p)) c \<le> 1" by blast+
    ultimately show "count_list (children (h p)) c = 1" by linarith
  qed
qed

lemma count_list_remove1:
  "count_list (remove1 x xs) y = (if x = y then count_list xs y - 1 else count_list xs y)"
  by (induction xs) auto

subsection \<open>Adding and removing a child-edge\<close>

lemma child_add_success:
  assumes "collection_child_add n s p c flg add_us = Some (True, s')"
  shows "c \<notin> set (children (colls s p))"
    and "BKE_collection_find_cycle n (colls s) p c = Some False"
    and "children (colls s' x) = (if x = p then children (colls s p) @ [c] else children (colls s x))"
    and "parents (colls s' x) = (if x = c \<and> flg AND LIB_ID_CREATE_NO_MAIN = 0
                                then parents (colls s c) @ [p] else parents (colls s x))"
    and "gobject (colls s' x) = gobject (colls s x)"
proof -
  from assms show nc: "c \<notin> set (children (colls s p))"
    by (auto simp: collection_child_add_def collection_find_child_def split: if_splits)
  from assms nc show fc: "BKE_collection_find_cycle n (colls s) p c = Some False"
    by (auto simp: collection_child_add_def collection_find_child_def split: option.splits bool.splits)
  define h1 where "h1 = (colls s)(p := (colls s p)\<lparr>children := children (colls s p) @ [c]\<rparr>)"
  define h2 where "h2 = (if flg AND LIB_ID_CREATE_NO_MAIN = 0
                        then h1(c := (h1 c)\<lparr>parents := parents (h1 c) @ [p]\<rparr>) else h1)"
  define h3 where "h3 = (if add_us then h2(c := collection_id_us_plus (h2 c)) else h2)"
  have "collection_child_add n s p c flg add_us
          = (case BKE_collection_object_cache_free n h3 p of
               None \<Rightarrow> None
             | Some h4 \<Rightarrow> Some (True, s\<lparr>colls := h4\<rparr>))"
    unfolding collection_child_add_def h3_def h2_def h1_def Let_def
    using nc fc by (simp add: collection_find_child_def)
  with assms obtain h4 where h4: "BKE_collection_object_cache_free n h3 p = Some h4"
    and s': "s' = s\<lparr>colls := h4\<rparr>"
    by (cases "BKE_collection_object_cache_free n h3 p") auto
  from h4 have eq: "h4 = clear_caches {x. (x, p) \<in> (parent_rel h3)\<^sup>*} h3"
    by (simp add: BKE_collection_object_cache_free_def cache_free_result)
  from fc have "p \<noteq> c" by (cases n) auto
  then show "children (colls s' x) = (if x = p then children (colls s p) @ [c] else children (colls s x))"
    by (simp add: s' eq h3_def h2_def h1_def collection_id_us_plus_def)
  from \<open>p \<noteq> c\<close>
  show "parents (colls s' x) = (if x = c \<and> flg AND LIB_ID_CREATE_NO_MAIN = 0
                                then parents (colls s c) @ [p] else parents (colls s x))"
    by (simp add: s' eq h3_def h2_def h1_def collection_id_us_plus_def)
  show "gobject (colls s' x) = gobject (colls s x)"
    by (simp add: s' eq h3_def h2_def h1_def collection_id_us_plus_def)
qed

lemma child_remove_success:
  assumes "collection_child_remove n s p c = Some (True, s')"
  shows "c \<in> set (children (colls s p))"
    and "children (colls s' x) = (if x = p then remove1 c (children (colls s p)) else children (colls s x))"
    and "parents (colls s' x) = (if x = c then remove1 p (parents (colls s c)) else parents (colls s x))"
    and "gobject (colls s' x) = gobject (colls s x)"
proof -
  from assms show mem: "c \<in> set (children (colls s p))"
    by (auto simp: collection_child_remove_def collection_find_child_def split: if_splits)
  define h1 where "h1 = (colls s)(c := (colls s c)\<lparr>parents := remove1 p (parents (colls s c))\<rparr>)"
  define h2 where "h2 = h1(p := (h1 p)\<lparr>children := remove1 c (children (h1 p))\<rparr>)"
  define h3 where "h3 = h2(c := collection_id_us_min (h2 c))"
  have "collection_child_remove n s p c
          = (case BKE_collection_object_cache_free n h3 p of
               None \<Rightarrow> None
             | Some h4 \<Rightarrow> Some (True, s\<lparr>colls := h4\<rparr>))"
    unfolding collection_child_remove_def h3_def h2_def h1_def Let_def
    using mem by (simp add: collection_find_child_def)
  with assms obtain h4 where h4: "BKE_collection_object_cache_free n h3 p = Some h4"
    and s': "s' = s\<lparr>colls := h4\<rparr>"
    by (cases "BKE_collection_object_cache_free n h3 p") auto
  from h4 have eq: "h4 = clear_caches {x. (x, p) \<in> (parent_rel h3)\<^sup>*} h3"
    by (simp add: BKE_collection_object_cache_free_def cache_free_result)
  show "children (colls s' x) = (if x = p then remove1 c (children (colls s p)) else children (colls s x))"
    by (simp add: s' eq h3_def h2_def h1_def collection_id_us_min_def)
  show "parents (colls s' x) = (if x = c then remove1 p (parents (colls s c)) else parents (colls s x))"
    by (simp add: s' eq h3_def h2_def h1_def collection_id_us_min_def)
  show "gobject (colls s' x) = gobject (colls s x)"
    by (simp add: s' eq h3_def h2_def h1_def collection_id_us_min_def)
qed

lemma child_add_preserves_inv:
  assumes inv: "graph_inv (colls s)"
    and main: "flg AND LIB_ID_CREATE_NO_MAIN = 0"
    and add: "collection_child_add n s p c flg add_us = Some (True, s')"
  shows "graph_inv (colls s')"
proof -
  note ok = child_add_success [OF add]
  have ch: "children (colls s' x) = (if x = p then children (colls s p) @ [c] else children (colls s x))" for x
    by (rule ok(3))
  have pa: "parents (colls s' x) = (if x = c then parents (colls s c) @ [p] else parents (colls s x))" for x
    using ok(4) [of x] main by simp
  have rel: "child_rel (colls s') = insert (p, c) (child_rel (colls s))"
    by (auto simp: child_rel_def ch split: if_splits)
  from find_cycle_sound [OF ok(2)] have "(c, p) \<notin> (parent_rel (colls s))\<^sup>*" by simp
  then have nocyc: "(c, p) \<notin> (child_rel (colls s))\<^sup>*"
    by (simp add: graph_inv_rel_eq [OF inv])
  from inv have sym: "\<forall>p c. count_list (children (colls s p)) c = count_list (parents (colls s c)) p
            \<and> count_list (children (colls s p)) c \<le> 1"
    unfolding graph_inv_def links_symmetric_alt by blast
  from ok(1) have zero: "count_list (children (colls s p)) c = 0" by simp
  have "links_symmetric (colls s')"
    unfolding links_symmetric_alt
  proof (intro allI)
    fix p' c'
    from sym have "count_list (children (colls s p')) c' = count_list (parents (colls s c')) p'"
      and "count_list (children (colls s p')) c' \<le> 1" by blast+
    with zero show "count_list (children (colls s' p')) c' = count_list (parents (colls s' c')) p'
            \<and> count_list (children (colls s' p')) c' \<le> 1"
      by (auto simp: ch pa)
  qed
  moreover from inv have "finite (child_rel (colls s'))" "acyclic (child_rel (colls s'))"
    using nocyc by (simp_all add: rel graph_inv_def)
  ultimately show ?thesis by (simp add: graph_inv_def)
qed

lemma child_remove_preserves_inv:
  assumes inv: "graph_inv (colls s)"
    and rem: "collection_child_remove n s p c = Some (True, s')"
  shows "graph_inv (colls s')"
proof -
  note ok = child_remove_success [OF rem]
  have ch: "children (colls s' x) = (if x = p then remove1 c (children (colls s p)) else children (colls s x))" for x
    by (rule ok(2))
  have pa: "parents (colls s' x) = (if x = c then remove1 p (parents (colls s c)) else parents (colls s x))" for x
    by (rule ok(3))
  have rel: "child_rel (colls s') \<subseteq> child_rel (colls s)"
    using set_remove1_subset [of c "children (colls s p)"]
    by (auto simp: child_rel_def ch split: if_splits)
  from inv have sym: "\<forall>p c. count_list (children (colls s p)) c = count_list (parents (colls s c)) p
            \<and> count_list (children (colls s p)) c \<le> 1"
    unfolding graph_inv_def links_symmetric_alt by blast
  have "links_symmetric (colls s')"
    unfolding links_symmetric_alt
  proof (intro allI)
    fix p' c'
    from sym have "count_list (children (colls s p')) c' = count_list (parents (colls s c')) p'"
      and "count_list (children (colls s p')) c' \<le> 1" by blast+
    then show "count_list (children (colls s' p')) c' = count_list (parents (colls s' c')) p'
            \<and> count_list (children (colls s' p')) c' \<le> 1"
      by (auto simp: ch pa count_list_remove1)
  qed
  moreover from inv rel have "finite (child_rel (colls s'))" "acyclic (child_rel (colls s'))"
    by (auto simp: graph_inv_def intro: finite_subset acyclic_subset)
  ultimately show ?thesis by (simp add: graph_inv_def)
qed

subsection \<open>Example scenes satisfy the invariants\<close>

lemma graph_inv_increasing:
  assumes "finite (child_rel h)" and "\<And>p c. c \<in> set (children (h p)) \<Longrightarrow> p < c"
    and "links_symmetric h"
  shows "graph_inv h"
proof -
  have "child_rel h \<subseteq> less_than" using assms(2) by (auto simp: child_rel_def)
  then have "acyclic (child_rel h)"
    by (rule acyclic_subset [OF wf_acyclic [OF wf_less_than]])
  with assms(1,3) show ?thesis by (simp add: graph_inv_def)
qed

lemma scenario_child_rel: "child_rel scenario = {(0, 1), (0, 2), (1, 3)}"
  by (auto simp: child_rel_def scenario_def empty_collection_def split: if_splits)

lemma scenario_parent_rel: "parent_rel scenario = {(0, 1), (0, 2), (1, 3)}"
  by (auto simp: parent_rel_def scenario_def empty_collection_def split: if_splits)

lemma scenario_inv: "graph_inv scenario"
proof (rule graph_inv_increasing)
  show "finite (child_rel scenario)" by (simp add: scenario_child_rel)
  show "p < c" if "c \<in> set (children (scenario p))" for p c
    using that by (auto simp: scenario_def empty_collection_def split: if_splits)
  show "links_symmetric scenario"
    unfolding links_symmetric_def
    by (auto simp: scenario_def empty_collection_def split: if_splits)
qed

lemma scenario_world_colls [simp]: "colls scenario_world = scenario"
  by (simp add: scenario_world_def)

lemma empty_inv: "graph_inv (\<lambda>_. empty_collection)"
  by (rule graph_inv_increasing)
     (simp_all add: child_rel_def links_symmetric_def empty_collection_def)

lemma select_loops:
  assumes "flag (h c) AND COLLECTION_RESTRICT_SELECT = 0" and "children (h c) \<noteq> []"
  shows "collection_objects_select n vl h c deselect = None"
proof (induction n arbitrary: vl)
  case 0
  show ?case by simp
next
  case (Suc n)
  from assms(2) obtain ch rest where ch: "children (h c) = ch # rest" by (cases "children (h c)") auto
  obtain changed vl1 where init: "select_objects deselect (gobject (h c)) (False, vl) = (changed, vl1)"
    by (cases "select_objects deselect (gobject (h c)) (False, vl)")
  show ?case using assms(1) by (simp add: ch init Suc.IH)
qed

lemma select_local:
  assumes "h' c = h c"
  shows "collection_objects_select n vl h' c deselect = collection_objects_select n vl h c deselect"
proof (induction n arbitrary: vl)
  case 0
  show ?case by simp
next
  case (Suc n)
  show ?case by (simp add: assms Suc.IH)
qed

subsection \<open>Edits of the object lists leave the graph alone\<close>

lemma graph_inv_same_links:
  assumes "\<And>x. children (h' x) = children (h x)" and "\<And>x. parents (h' x) = parents (h x)"
  shows "graph_inv h' = graph_inv h" and "child_rel h' = child_rel h" and "parent_rel h' = parent_rel h"
  by (simp_all add: graph_inv_def child_rel_def parent_rel_def links_symmetric_def assms)

lemma cache_get_terminates:
  assumes "graph_inv h"
  shows "\<exists>N. \<forall>n\<ge>N. BKE_collection_object_cache_get n h c \<noteq> None"
proof -
  from cache_fill_terminates [OF graph_inv_wf_child [OF assms], of c]
  obtain N where N: "\<forall>n\<ge>N. \<forall>lb r. collection_object_cache_fill n h lb c r \<noteq> None" by blast
  have "BKE_collection_object_cache_get n h c \<noteq> None" if "n \<ge> N" for n
  proof -
    from N that obtain lb where "collection_object_cache_fill n h (object_cache (h c)) c 0 = Some lb"
      by blast
    then show ?thesis by (simp add: BKE_collection_object_cache_get_def Let_def)
  qed
  then show ?thesis by blast
qed

lemma cache_get_objects:
  assumes "BKE_collection_object_cache_get n h c = Some (lb, h')"
    and "flag (h c) AND COLLECTION_HAS_OBJECT_CACHE = 0" and "object_cache (h c) = []"
  shows "object ` set lb = objects_below h c"
proof -
  from assms(1,2) obtain lb0 where f: "collection_object_cache_fill n h (object_cache (h c)) c 0 = Some lb0"
    by (auto simp: BKE_collection_object_cache_get_def split: option.splits)
  from cache_get_invalid [OF assms(2) f] assms(1) have "lb = lb0" by simp
  with cache_fill_result [OF f] assms(3) show ?thesis by simp
qed

lemma object_remove_success:
  assumes "collection_object_remove n s c ob free_us = Some (True, s')"
  shows "ob \<in> set (gobject (colls s c))"
    and "colls s' = clear_caches {x. (x, c) \<in> (parent_rel (colls s))\<^sup>*}
           ((colls s)(c := (colls s c)\<lparr>gobject := remove1 ob (gobject (colls s c))\<rparr>))"
proof -
  from assms show mem: "ob \<in> set (gobject (colls s c))"
    by (auto simp: collection_object_remove_def split: if_splits)
  define h1 where "h1 = (colls s)(c := (colls s c)\<lparr>gobject := remove1 ob (gobject (colls s c))\<rparr>)"
  have "collection_object_remove n s c ob free_us
          = (case BKE_collection_object_cache_free n h1 c of
               None \<Rightarrow> None
             | Some h2 \<Rightarrow>
                 Some (True,
                   s\<lparr>colls := h2,
                     objs := (if free_us
                              then (objs s)(ob := BKE_libblock_free_us (objs s ob))
                              else (objs s)(ob := object_id_us_min (objs s ob)))\<rparr>))"
    unfolding collection_object_remove_def h1_def Let_def using mem by simp
  with assms obtain h2 where h2: "BKE_collection_object_cache_free n h1 c = Some h2"
    and s': "colls s' = h2"
    by (cases "BKE_collection_object_cache_free n h1 c") auto
  have "parent_rel h1 = parent_rel (colls s)"
    by (auto simp: parent_rel_def h1_def)
  with h2 have "h2 = clear_caches {x. (x, c) \<in> (parent_rel (colls s))\<^sup>*} h1"
    using cache_free_result [of n h1 c h2] by (simp add: BKE_collection_object_cache_free_def)
  with s' show "colls s' = clear_caches {x. (x, c) \<in> (parent_rel (colls s))\<^sup>*}
           ((colls s)(c := (colls s c)\<lparr>gobject := remove1 ob (gobject (colls s c))\<rparr>))"
    by (simp add: h1_def)
qed

lemma object_add_refused_state:
  "collection_object_add n s c ob flg add_us = Some (False, s1) \<Longrightarrow> s1 = s"
  by (auto simp: collection_object_add_def Let_def split: option.splits bool.splits if_splits)

lemma object_add_member:
  assumes "ob \<in> set (gobject (colls s c))"
    and "collection_object_add n s c ob flg add_us = Some (b, s1)"
  shows "b = False \<and> s1 = s"
  using assms
  by (auto simp: collection_object_add_def Let_def split: option.splits bool.splits if_splits)

lemma object_add_member_terminates:
  assumes "graph_inv (colls s)" and "ob \<in> set (gobject (colls s c))"
  shows "\<exists>N. \<forall>n\<ge>N. collection_object_add n s c ob flg add_us = Some (False, s)"
proof (cases "dup_group (objs s ob)")
  case None
  with assms(2) show ?thesis by (simp add: collection_object_add_def)
next
  case (Some dg)
  from find_child_recursive_terminates [OF graph_inv_wf_child [OF assms(1)], of c dg]
  obtain N where N: "\<forall>n\<ge>N. collection_find_child_recursive n (colls s) c dg \<noteq> None" by blast
  have "collection_object_add n s c ob flg add_us = Some (False, s)" if "n \<ge> N" for n
  proof -
    from N that obtain b where "collection_find_child_recursive n (colls s) c dg = Some b" by auto
    with Some assms(2) show ?thesis by (cases b) (simp_all add: collection_object_add_def)
  qed
  then show ?thesis by blast
qed

lemma BKE_object_add_refused_state:
  "BKE_collection_object_add n s c ob = Some (False, s1) \<Longrightarrow> s1 = s"
  by (auto simp: BKE_collection_object_add_def split: option.splits bool.splits prod.splits
      dest: object_add_refused_state)

subsection \<open>The walk of the scene collection iterator\<close>



















subsection \<open>The iterator yields the array\<close>



subsection \<open>A walk of a tree yields no collection twice\<close>





subsection \<open>The scene objects iterator on the scenario\<close>

text \<open>
  The master collection of the scenario holds no object itself; the object 7, placed in B
  and in C, is yielded once.
\<close>

lemma scene_objects_scenario:
  "FOREACH_SCENE_OBJECT 4 scenario scene0 = Some [7]"
  by (simp add: FOREACH_SCENE_OBJECT_def BKE_scene_objects_iterator_begin_def
      BKE_scene_collections_iterator_begin_def scene_collections_array_def scene0_def
      scenario_def empty_collection_def scene_collections_count_def
      scene_collections_build_array_def BKE_scene_objects_iterator_next_def
      BKE_scene_collections_iterator_next_def Let_def eval_nat_numeral)

subsection \<open>The guard of the member-edge\<close>

lemma find_child_recursive_correct:
  assumes "wf ((child_rel h)\<inverse>)"
  shows "\<exists>N. \<forall>n\<ge>N. collection_find_child_recursive n h p c = Some ((p, c) \<in> (child_rel h)\<^sup>+)"
proof -
  from find_child_recursive_terminates [OF assms] obtain N where
    N: "\<forall>n\<ge>N. collection_find_child_recursive n h p c \<noteq> None" by blast
  have "collection_find_child_recursive n h p c = Some ((p, c) \<in> (child_rel h)\<^sup>+)" if "n \<ge> N" for n
  proof -
    from N that obtain b where b: "collection_find_child_recursive n h p c = Some b" by auto
    from find_child_recursive_sound [OF b] b show ?thesis by simp
  qed
  then show ?thesis by blast
qed

text \<open>
  What \<^verbatim>\<open>collection_object_add\<close> checks, on a graph that satisfies the invariants: it
  returns \<^verbatim>\<open>false\<close> exactly when the object instances a collection that is strictly below
  the target collection, or is a member of the target collection already.
\<close>

lemma object_add_outcome:
  assumes inv: "graph_inv (colls s)"
  shows "\<exists>N. \<forall>n\<ge>N. map_option fst (collection_object_add n s c ob flg add_us)
           = Some (\<not> ((\<exists>dg. dup_group (objs s ob) = Some dg \<and> (c, dg) \<in> (child_rel (colls s))\<^sup>+)
                       \<or> ob \<in> set (gobject (colls s c))))"
proof -
  define h1 where "h1 = (colls s)(c := (colls s c)\<lparr>gobject := gobject (colls s c) @ [ob]\<rparr>)"
  have "parent_rel h1 = parent_rel (colls s)" by (auto simp: parent_rel_def h1_def)
  with graph_inv_wf_parent [OF inv] have "wf (parent_rel h1)" by simp
  from cache_free_correct [OF this, of c] obtain N1 where
    N1: "\<forall>n\<ge>N1. BKE_collection_object_cache_free n h1 c \<noteq> None"
    by (auto simp: BKE_collection_object_cache_free_def)
  show ?thesis
  proof (cases "dup_group (objs s ob)")
    case None
    have "map_option fst (collection_object_add n s c ob flg add_us)
        = Some (\<not> ((\<exists>dg. dup_group (objs s ob) = Some dg \<and> (c, dg) \<in> (child_rel (colls s))\<^sup>+)
                       \<or> ob \<in> set (gobject (colls s c))))" if "n \<ge> N1" for n
    proof -
      from N1 that obtain h2 where "BKE_collection_object_cache_free n h1 c = Some h2" by auto
      with None show ?thesis
        unfolding collection_object_add_def Let_def h1_def [symmetric] by simp
    qed
    then show ?thesis by blast
  next
    case (Some dg)
    from find_child_recursive_correct [OF graph_inv_wf_child [OF inv], of c dg] obtain N2 where
      N2: "\<forall>n\<ge>N2. collection_find_child_recursive n (colls s) c dg
             = Some ((c, dg) \<in> (child_rel (colls s))\<^sup>+)" by blast
    have "map_option fst (collection_object_add n s c ob flg add_us)
        = Some (\<not> ((\<exists>dg. dup_group (objs s ob) = Some dg \<and> (c, dg) \<in> (child_rel (colls s))\<^sup>+)
                       \<or> ob \<in> set (gobject (colls s c))))" if "n \<ge> max N1 N2" for n
    proof -
      from N1 that obtain h2 where h2: "BKE_collection_object_cache_free n h1 c = Some h2" by auto
      from N2 that have fc: "collection_find_child_recursive n (colls s) c dg
             = Some ((c, dg) \<in> (child_rel (colls s))\<^sup>+)" by simp
      show ?thesis
        unfolding collection_object_add_def Let_def h1_def [symmetric]
        using Some fc h2 by (cases "(c, dg) \<in> (child_rel (colls s))\<^sup>+") simp_all
    qed
    then show ?thesis by blast
  qed
qed

subsection \<open>The scenario with filled caches\<close>

lemma cached_scenario_reached:
  "BKE_collection_object_cache_get 1
     (scenario(0 := (scenario 0)\<lparr>flag := COLLECTION_IS_MASTER OR COLLECTION_HAS_OBJECT_CACHE,
                                  object_cache := [new_base (scast COLLECTION_IS_MASTER) 7]\<rparr>)) 2
     = Some ([new_base 0 7], cached_scenario)"
proof -
  let ?h1 = "scenario(0 := (scenario 0)\<lparr>flag := COLLECTION_IS_MASTER OR COLLECTION_HAS_OBJECT_CACHE,
                                  object_cache := [new_base (scast COLLECTION_IS_MASTER) 7]\<rparr>)"
  have "?h1(2 := (?h1 2)\<lparr>flag := flag (?h1 2) OR COLLECTION_HAS_OBJECT_CACHE,
                          object_cache := [new_base 0 7]\<rparr>) = cached_scenario"
    by (rule ext) (simp add: cached_scenario_def scenario_def empty_collection_def)
  moreover have "flag (?h1 2) AND COLLECTION_HAS_OBJECT_CACHE = 0"
    by (simp add: scenario_def empty_collection_def)
  moreover have "collection_object_cache_fill 1 ?h1 (object_cache (?h1 2)) 2 0 = Some [new_base 0 7]"
    by (simp add: scenario_def empty_collection_def)
  ultimately show ?thesis
    using cache_get_invalid [of ?h1 2 1 "[new_base 0 7]"] by simp
qed

subsection \<open>The walk of the iterator is the depth-first pre-order walk\<close>




subsection \<open>Taking an object out of a collection\<close>

lemma cached_scenario_links [simp]:
  "children (cached_scenario x) = children (scenario x)"
  "parents (cached_scenario x) = parents (scenario x)"
  by (simp_all add: cached_scenario_def)

lemma cached_scenario_inv: "graph_inv cached_scenario"
  using graph_inv_same_links(1) [of cached_scenario scenario] scenario_inv by simp

lemma objects_below_after_remove:
  assumes g: "\<And>x. gobject (h' x) = (if x = c then remove1 ob (gobject (h c)) else gobject (h x))"
    and ch: "\<And>x. children (h' x) = children (h x)"
  shows "ob \<in> objects_below h' c \<longleftrightarrow>
           ob \<in> set (remove1 ob (gobject (h c)))
           \<or> (\<exists>d. d \<noteq> c \<and> (c, d) \<in> (child_rel h)\<^sup>* \<and> ob \<in> set (gobject (h d)))"
proof -
  have rel: "child_rel h' = child_rel h" by (simp add: child_rel_def ch)
  show ?thesis
  proof
    assume "ob \<in> objects_below h' c"
    then obtain d where d: "(c, d) \<in> (child_rel h)\<^sup>*" "ob \<in> set (gobject (h' d))"
      by (auto simp: objects_below_def rel)
    show "ob \<in> set (remove1 ob (gobject (h c)))
           \<or> (\<exists>d. d \<noteq> c \<and> (c, d) \<in> (child_rel h)\<^sup>* \<and> ob \<in> set (gobject (h d)))"
    proof (cases "d = c")
      case True
      with d(2) show ?thesis by (simp add: g)
    next
      case False
      with d show ?thesis by (auto simp: g)
    qed
  next
    assume "ob \<in> set (remove1 ob (gobject (h c)))
           \<or> (\<exists>d. d \<noteq> c \<and> (c, d) \<in> (child_rel h)\<^sup>* \<and> ob \<in> set (gobject (h d)))"
    then show "ob \<in> objects_below h' c"
    proof
      assume "ob \<in> set (remove1 ob (gobject (h c)))"
      then have "ob \<in> set (gobject (h' c))" by (simp add: g)
      then show ?thesis unfolding objects_below_def rel by blast
    next
      assume "\<exists>d. d \<noteq> c \<and> (c, d) \<in> (child_rel h)\<^sup>* \<and> ob \<in> set (gobject (h d))"
      then obtain d where "d \<noteq> c" "(c, d) \<in> (child_rel h)\<^sup>*" "ob \<in> set (gobject (h d))" by blast
      then have "(c, d) \<in> (child_rel h)\<^sup>* \<and> ob \<in> set (gobject (h' d))" by (simp add: g)
      then show ?thesis unfolding objects_below_def rel by blast
    qed
  qed
qed

section \<open>The claims\<close>

text \<open>
  C1 (amended). Starting from a graph that satisfies the invariants of the data model,
  after any sequence of \<^verbatim>\<open>collection_child_add\<close> and \<^verbatim>\<open>collection_child_remove\<close> calls that
  each returned \<^verbatim>\<open>true\<close>, and whose additions were made without the flag
  \<^verbatim>\<open>LIB_ID_CREATE_NO_MAIN\<close>, the graph satisfies the invariants again: the child relation is
  acyclic, and every child-edge has exactly one parent-back-reference and vice versa.
\<close>

theorem child_edits_keep_invariants:
  assumes "graph_inv (colls s)"
    and "\<forall>x\<in>set ops. links_in_main (snd x)"
    and "run_child_ops ops s = Some s'"
  shows "graph_inv (colls s')"
  using assms
proof (induction ops arbitrary: s)
  case Nil
  then show ?case by simp
next
  case (Cons nx ops)
  obtain n x where nx: "nx = (n, x)" by (cases nx)
  from Cons.prems(3) obtain s1 where s1: "run_child_op n x s = Some (True, s1)"
    and rest: "run_child_ops ops s1 = Some s'"
    by (auto simp: nx split: option.splits bool.splits)
  have "graph_inv (colls s1)"
  proof (cases x)
    case (Add_child p c flg add_us)
    with s1 Cons.prems(1,2) show ?thesis
      by (auto simp: nx intro: child_add_preserves_inv)
  next
    case (Remove_child p c)
    with s1 Cons.prems(1) show ?thesis
      by (auto intro: child_remove_preserves_inv)
  qed
  from Cons.IH [OF this _ rest] Cons.prems(2) show ?case by simp
qed

text \<open>
  In the scenario, linking C below B as well and then unlinking it from A succeeds and
  leaves a graph that satisfies the invariants.
\<close>

theorem child_edits_keep_invariants_witness:
  "\<exists>s'. run_child_ops [(3, Add_child 2 3 0 True), (2, Remove_child 1 3)] scenario_world = Some s'
        \<and> graph_inv (colls s')"
proof -
  have inv0: "graph_inv (colls scenario_world)" by (simp add: scenario_inv)
  have main: "\<forall>x\<in>set [(3, Add_child 2 3 0 True), (2, Remove_child 1 3)]. links_in_main (snd x)"
    by simp
  have "run_child_ops [(3, Add_child 2 3 0 True), (2, Remove_child 1 3)] scenario_world \<noteq> None"
    by (simp add: eval_nat_numeral collection_child_add_def collection_child_remove_def
        collection_find_child_def BKE_collection_object_cache_free_def Let_def
        scenario_world_def scenario_def empty_collection_def collection_id_us_plus_def
        collection_id_us_min_def)
  then obtain s' where s': "run_child_ops [(3, Add_child 2 3 0 True), (2, Remove_child 1 3)] scenario_world = Some s'"
    by auto
  from child_edits_keep_invariants [OF inv0 main s'] s' show ?thesis by blast
qed

text \<open>
  C1 as stated fails: a \<^verbatim>\<open>collection_child_add\<close> with \<^verbatim>\<open>LIB_ID_CREATE_NO_MAIN\<close> succeeds on
  the empty graph and appends the child-edge 0 \<rightarrow> 1 without a parent-back-reference.
\<close>

theorem no_main_edge_counterexample:
  "graph_inv (colls empty_world)
   \<and> run_child_ops [(1, Add_child 0 1 LIB_ID_CREATE_NO_MAIN False)] empty_world
       = Some (empty_world\<lparr>colls := (\<lambda>_. empty_collection)(0 := empty_collection\<lparr>children := [1]\<rparr>)\<rparr>)
   \<and> \<not> links_symmetric ((\<lambda>_. empty_collection)(0 := empty_collection\<lparr>children := [1]\<rparr>))"
proof (intro conjI)
  show "graph_inv (colls empty_world)" by (simp add: empty_world_def empty_inv)
  show "run_child_ops [(1, Add_child 0 1 LIB_ID_CREATE_NO_MAIN False)] empty_world
       = Some (empty_world\<lparr>colls := (\<lambda>_. empty_collection)(0 := empty_collection\<lparr>children := [1]\<rparr>)\<rparr>)"
    by (simp add: collection_child_add_def collection_find_child_def
        BKE_collection_object_cache_free_def Let_def empty_world_def empty_collection_def
        LIB_ID_CREATE_NO_MAIN_def)
  show "\<not> links_symmetric ((\<lambda>_. empty_collection)(0 := empty_collection\<lparr>children := [1]\<rparr>))"
    by (auto simp: links_symmetric_def empty_collection_def dest!: spec [of _ 0] spec [of _ 1])
qed

text \<open>
  C3 (amended). On a graph that satisfies the invariants,
  \<^verbatim>\<open>BKE_collection_find_cycle(new_ancestor, collection)\<close> returns, and it returns \<^verbatim>\<open>true\<close>
  if and only if \<^verbatim>\<open>collection\<close> equals \<^verbatim>\<open>new_ancestor\<close> or \<^verbatim>\<open>collection\<close> is reachable from
  \<^verbatim>\<open>new_ancestor\<close> by walking parent-back-references transitively: the walk starts at the
  candidate ancestor and looks for the collection.
\<close>

theorem find_cycle_walks_from_new_ancestor:
  assumes "graph_inv h"
  shows "\<exists>N. \<forall>n\<ge>N. BKE_collection_find_cycle n h new_ancestor collection
           = Some (collection = new_ancestor \<or> (collection, new_ancestor) \<in> (parent_rel h)\<^sup>+)"
proof -
  have "(collection, new_ancestor) \<in> (parent_rel h)\<^sup>*
      \<longleftrightarrow> collection = new_ancestor \<or> (collection, new_ancestor) \<in> (parent_rel h)\<^sup>+"
    by (auto simp: rtrancl_eq_or_trancl)
  with find_cycle_correct [OF graph_inv_wf_parent [OF assms], of new_ancestor collection]
  show ?thesis by simp
qed

text \<open>In the scenario the master 0 is found by the walk that starts at C.\<close>

theorem find_cycle_walks_from_new_ancestor_witness:
  "\<exists>N. \<forall>n\<ge>N. BKE_collection_find_cycle n scenario 3 0 = Some True"
proof -
  have "(0, 1) \<in> parent_rel scenario" and "(1, 3) \<in> parent_rel scenario"
    by (simp_all add: scenario_parent_rel)
  then have "(0, 3) \<in> (parent_rel scenario)\<^sup>+" by (meson trancl.intros)
  with find_cycle_walks_from_new_ancestor [OF scenario_inv, of 3 0] show ?thesis by simp
qed

text \<open>
  C3 as stated fails: with the master 0 as candidate ancestor and A as collection, the
  candidate is reachable from the collection by a parent-back-reference, and the function
  returns \<^verbatim>\<open>false\<close>.
\<close>

theorem find_cycle_direction_counterexample:
  "graph_inv scenario \<and> BKE_collection_find_cycle 2 scenario 0 1 = Some False
   \<and> (0, 1) \<in> (parent_rel scenario)\<^sup>+"
proof (intro conjI)
  show "graph_inv scenario" by (rule scenario_inv)
  show "BKE_collection_find_cycle 2 scenario 0 1 = Some False"
    by (simp add: eval_nat_numeral scenario_def empty_collection_def)
  have "(0, 1) \<in> parent_rel scenario" by (simp add: scenario_parent_rel)
  then show "(0, 1) \<in> (parent_rel scenario)\<^sup>+" by (rule r_into_trancl)
qed

text \<open>
  C5 (amended). \<^verbatim>\<open>collection_child_add(parent, collection)\<close> returns \<^verbatim>\<open>false\<close> and leaves
  the whole state as it was (no edge, no back-reference, no user count, no cache touched)
  when the edge exists already, when \<^verbatim>\<open>collection\<close> is \<^verbatim>\<open>parent\<close> itself, or when
  \<^verbatim>\<open>collection\<close> is an ancestor of \<^verbatim>\<open>parent\<close> as the parent-back-references record it.
  The first two need nothing of the graph. For the third, a call that returns has refused,
  and the call returns when the parent-back-references have no infinite ascending chain.
  On a graph that satisfies the invariants this is the ancestry along the child-edges.
\<close>

theorem child_add_refused_on_cycle:
  "(collection \<in> set (children (colls s parent))
      \<longrightarrow> collection_child_add n s parent collection flg add_us = Some (False, s))
   \<and> (collection = parent
      \<longrightarrow> collection_child_add (Suc n) s parent collection flg add_us = Some (False, s))
   \<and> ((collection, parent) \<in> (parent_rel (colls s))\<^sup>*
      \<longrightarrow> collection_child_add n s parent collection flg add_us = None
          \<or> collection_child_add n s parent collection flg add_us = Some (False, s))
   \<and> ((collection, parent) \<in> (parent_rel (colls s))\<^sup>* \<and> wf (parent_rel (colls s))
      \<longrightarrow> (\<exists>N. \<forall>n\<ge>N. collection_child_add n s parent collection flg add_us = Some (False, s)))
   \<and> ((collection, parent) \<in> (child_rel (colls s))\<^sup>* \<and> graph_inv (colls s)
      \<longrightarrow> (\<exists>N. \<forall>n\<ge>N. collection_child_add n s parent collection flg add_us = Some (False, s)))"
proof -
  have c1: "collection \<in> set (children (colls s parent))
      \<longrightarrow> collection_child_add n s parent collection flg add_us = Some (False, s)"
    by (simp add: collection_child_add_def collection_find_child_def)
  have c2: "collection = parent
      \<longrightarrow> collection_child_add (Suc n) s parent collection flg add_us = Some (False, s)"
    by (simp add: collection_child_add_def collection_find_child_def)
  have c3: "(collection, parent) \<in> (parent_rel (colls s))\<^sup>*
      \<longrightarrow> collection_child_add n s parent collection flg add_us = None
          \<or> collection_child_add n s parent collection flg add_us = Some (False, s)"
  proof
    assume anc: "(collection, parent) \<in> (parent_rel (colls s))\<^sup>*"
    show "collection_child_add n s parent collection flg add_us = None
          \<or> collection_child_add n s parent collection flg add_us = Some (False, s)"
    proof (cases "BKE_collection_find_cycle n (colls s) parent collection")
      case None
      then show ?thesis by (simp add: collection_child_add_def)
    next
      case (Some b)
      from find_cycle_sound [OF Some] anc have b by simp
      with Some show ?thesis by (simp add: collection_child_add_def)
    qed
  qed
  have up: "\<exists>N. \<forall>n\<ge>N. collection_child_add n s parent collection flg add_us = Some (False, s)"
    if anc: "(collection, parent) \<in> (parent_rel (colls s))\<^sup>*" and wf: "wf (parent_rel (colls s))"
  proof -
    from find_cycle_correct [OF wf, of parent collection] anc
    obtain N where "\<forall>n\<ge>N. BKE_collection_find_cycle n (colls s) parent collection = Some True"
      by auto
    then have "\<forall>n\<ge>N. collection_child_add n s parent collection flg add_us = Some (False, s)"
      by (simp add: collection_child_add_def)
    then show ?thesis by blast
  qed
  have c4: "(collection, parent) \<in> (parent_rel (colls s))\<^sup>* \<and> wf (parent_rel (colls s))
      \<longrightarrow> (\<exists>N. \<forall>n\<ge>N. collection_child_add n s parent collection flg add_us = Some (False, s))"
    using up by blast
  have c5: "(collection, parent) \<in> (child_rel (colls s))\<^sup>* \<and> graph_inv (colls s)
      \<longrightarrow> (\<exists>N. \<forall>n\<ge>N. collection_child_add n s parent collection flg add_us = Some (False, s))"
  proof
    assume a: "(collection, parent) \<in> (child_rel (colls s))\<^sup>* \<and> graph_inv (colls s)"
    then have "(collection, parent) \<in> (parent_rel (colls s))\<^sup>*"
      by (simp add: graph_inv_rel_eq)
    moreover from a have "wf (parent_rel (colls s))" by (simp add: graph_inv_wf_parent)
    ultimately show "\<exists>N. \<forall>n\<ge>N. collection_child_add n s parent collection flg add_us = Some (False, s)"
      by (rule up)
  qed
  show ?thesis by (intro conjI c1 c2 c3 c4 c5)
qed

text \<open>
  In the scenario: the edge from the master to A exists; C below itself; the master below
  C, which is refused with three levels of recursion and with every larger bound.
\<close>

theorem child_add_refused_on_cycle_witness:
  "collection_child_add 0 scenario_world 0 1 0 True = Some (False, scenario_world)
   \<and> collection_child_add (Suc 0) scenario_world 3 3 0 True = Some (False, scenario_world)
   \<and> collection_child_add 3 scenario_world 3 0 0 True = Some (False, scenario_world)
   \<and> (\<exists>N. \<forall>n\<ge>N. collection_child_add n scenario_world 3 0 0 True = Some (False, scenario_world))"
proof -
  have edge: "1 \<in> set (children (colls scenario_world 0))"
    by (simp add: scenario_def)
  have "(0, 1) \<in> parent_rel scenario" and "(1, 3) \<in> parent_rel scenario"
    by (simp_all add: scenario_parent_rel)
  then have "(0, 3) \<in> (parent_rel scenario)\<^sup>*"
    by (rule rtrancl_into_rtrancl [OF r_into_rtrancl])
  then have anc: "(0, 3) \<in> (parent_rel (colls scenario_world))\<^sup>*" by simp
  have wf: "wf (parent_rel (colls scenario_world))"
    using graph_inv_wf_parent [OF scenario_inv] by simp
  have ret: "collection_child_add 3 scenario_world 3 0 0 True \<noteq> None"
    by (simp add: eval_nat_numeral collection_child_add_def collection_find_child_def
        scenario_world_def scenario_def empty_collection_def)
  from child_add_refused_on_cycle [of 1 scenario_world 0 0 0 True] edge
  have w1: "collection_child_add 0 scenario_world 0 1 0 True = Some (False, scenario_world)"
    by (elim conjE) (erule mp)
  from child_add_refused_on_cycle [of 3 scenario_world 3 0 0 True]
  have w2: "collection_child_add (Suc 0) scenario_world 3 3 0 True = Some (False, scenario_world)"
    by simp
  from child_add_refused_on_cycle [of 0 scenario_world 3 3 0 True] anc ret
  have w3: "collection_child_add 3 scenario_world 3 0 0 True = Some (False, scenario_world)"
    by blast
  from child_add_refused_on_cycle [of 0 scenario_world 3 3 0 True] anc wf
  have w4: "\<exists>N. \<forall>n\<ge>N. collection_child_add n scenario_world 3 0 0 True = Some (False, scenario_world)"
    by blast
  show ?thesis by (intro conjI w1 w2 w3 w4)
qed

text \<open>
  C5 as stated fails for an ancestor along a child-edge that has no back-reference: after
  \<^verbatim>\<open>collection_child_add(0, 1, LIB_ID_CREATE_NO_MAIN, false)\<close> the collection 0 is the parent
  of 1, and \<^verbatim>\<open>collection_child_add(1, 0)\<close> returns \<^verbatim>\<open>true\<close>.
\<close>

theorem child_edge_ancestor_counterexample:
  "run_child_ops [(1, Add_child 0 1 LIB_ID_CREATE_NO_MAIN False)] empty_world = Some unsynced_world
   \<and> (0, 1) \<in> (child_rel (colls unsynced_world))\<^sup>*
   \<and> map_option fst (collection_child_add 2 unsynced_world 1 0 0 True) = Some True"
proof (intro conjI)
  show "run_child_ops [(1, Add_child 0 1 LIB_ID_CREATE_NO_MAIN False)] empty_world = Some unsynced_world"
    by (simp add: collection_child_add_def collection_find_child_def
        BKE_collection_object_cache_free_def Let_def empty_world_def unsynced_world_def
        empty_collection_def LIB_ID_CREATE_NO_MAIN_def)
  have "(0, 1) \<in> child_rel (colls unsynced_world)"
    by (simp add: child_rel_def unsynced_world_def)
  then show "(0, 1) \<in> (child_rel (colls unsynced_world))\<^sup>*" by (rule r_into_rtrancl)
  show "map_option fst (collection_child_add 2 unsynced_world 1 0 0 True) = Some True"
    by (simp add: eval_nat_numeral collection_child_add_def collection_find_child_def
        BKE_collection_object_cache_free_def Let_def unsynced_world_def empty_world_def
        empty_collection_def LIB_ID_CREATE_NO_MAIN_def collection_id_us_plus_def)
qed

text \<open>
  C9. In \<^verbatim>\<open>collection_objects_select\<close> the loop over the children calls the function on
  \<^verbatim>\<open>collection\<close> itself. For a collection whose restrict-select flag is unset and which has
  a child, no depth of recursion is enough for the call to return; and what the call does
  depends on this one collection only, so the members of its children are never looked at.
\<close>

theorem select_recurses_on_itself:
  "(flag (h collection) AND COLLECTION_RESTRICT_SELECT = 0 \<and> children (h collection) \<noteq> []
      \<longrightarrow> collection_objects_select n view_layer h collection deselect = None)
   \<and> (h' collection = h collection
      \<longrightarrow> collection_objects_select n view_layer h' collection deselect
          = collection_objects_select n view_layer h collection deselect)"
  using select_loops [of h collection n view_layer deselect]
    select_local [of h' collection h n view_layer deselect] by blast

text \<open>The master of the scenario, with 100 levels of recursion, and with C emptied.\<close>

theorem select_recurses_on_itself_witness:
  "collection_objects_select 100 (\<lambda>_. None) scenario 0 False = None
   \<and> collection_objects_select 100 (\<lambda>_. None) (scenario(3 := empty_collection)) 0 False
     = collection_objects_select 100 (\<lambda>_. None) scenario 0 False"
  using select_recurses_on_itself [of scenario 0 100 "\<lambda>_. None" False "scenario(3 := empty_collection)"]
  by (simp add: scenario_def empty_collection_def COLLECTION_RESTRICT_SELECT_def COLLECTION_IS_MASTER_def)

text \<open>
  C6. After a \<^verbatim>\<open>collection_object_remove\<close> that returned \<^verbatim>\<open>true\<close>: the object was a member,
  its first link is gone from the member list of the collection and nothing else of the
  lists has changed; the collection and every ancestor of it (along the
  parent-back-references) have an empty cache and the validity bit cleared; a following
  \<^verbatim>\<open>BKE_collection_object_cache_get\<close> of the collection or of an ancestor returns the
  objects placed in it or below it in the new state; for the collection itself the object
  is in that list exactly when another link of the collection still holds it or a
  collection below holds it. The read returns when the child-edges have no infinite
  descending chain.
\<close>

theorem removed_object_absent_from_cache:
  assumes rem: "collection_object_remove n s collection ob free_us = Some (True, s')"
  shows "ob \<in> set (gobject (colls s collection))
       \<and> (\<forall>x. gobject (colls s' x)
                 = (if x = collection then remove1 ob (gobject (colls s collection))
                    else gobject (colls s x))
              \<and> children (colls s' x) = children (colls s x)
              \<and> parents (colls s' x) = parents (colls s x))
       \<and> (\<forall>a. (a, collection) \<in> (parent_rel (colls s))\<^sup>* \<longrightarrow>
            flag (colls s' a) AND COLLECTION_HAS_OBJECT_CACHE = 0 \<and> object_cache (colls s' a) = [])
       \<and> (\<forall>a m lb h'. (a, collection) \<in> (parent_rel (colls s))\<^sup>*
              \<and> BKE_collection_object_cache_get m (colls s') a = Some (lb, h')
            \<longrightarrow> object ` set lb = objects_below (colls s') a)
       \<and> (\<forall>m lb h'. BKE_collection_object_cache_get m (colls s') collection = Some (lb, h') \<longrightarrow>
            (ob \<in> object ` set lb \<longleftrightarrow>
               ob \<in> set (remove1 ob (gobject (colls s collection)))
               \<or> (\<exists>c. c \<noteq> collection \<and> (collection, c) \<in> (child_rel (colls s))\<^sup>*
                       \<and> ob \<in> set (gobject (colls s c)))))
       \<and> (wf ((child_rel (colls s))\<inverse>) \<longrightarrow>
            (\<forall>a. \<exists>N. \<forall>m\<ge>N. BKE_collection_object_cache_get m (colls s') a \<noteq> None))"
proof -
  note eq = object_remove_success(2) [OF rem]
  have g: "gobject (colls s' x)
             = (if x = collection then remove1 ob (gobject (colls s collection))
                else gobject (colls s x))" for x
    by (simp add: eq)
  have ch: "children (colls s' x) = children (colls s x)" for x by (simp add: eq)
  have pa: "parents (colls s' x) = parents (colls s x)" for x by (simp add: eq)
  have cleared: "flag (colls s' a) AND COLLECTION_HAS_OBJECT_CACHE = 0 \<and> object_cache (colls s' a) = []"
    if "(a, collection) \<in> (parent_rel (colls s))\<^sup>*" for a
    using that by (simp add: eq clear_caches_def)
  have filled: "object ` set lb = objects_below (colls s') a"
    if "(a, collection) \<in> (parent_rel (colls s))\<^sup>*"
      and "BKE_collection_object_cache_get m (colls s') a = Some (lb, h')" for a m lb h'
    using cache_get_objects [OF that(2)] cleared [OF that(1)] by blast
  have self: "ob \<in> object ` set lb \<longleftrightarrow>
               ob \<in> set (remove1 ob (gobject (colls s collection)))
               \<or> (\<exists>c. c \<noteq> collection \<and> (collection, c) \<in> (child_rel (colls s))\<^sup>*
                       \<and> ob \<in> set (gobject (colls s c)))"
    if "BKE_collection_object_cache_get m (colls s') collection = Some (lb, h')" for m lb h'
  proof -
    have "object ` set lb = objects_below (colls s') collection"
      by (rule filled [OF rtrancl.rtrancl_refl that])
    then show ?thesis
      using objects_below_after_remove [of "colls s'" collection ob "colls s", OF g ch] by simp
  qed
  have returns: "\<exists>N. \<forall>m\<ge>N. BKE_collection_object_cache_get m (colls s') a \<noteq> None"
    if "wf ((child_rel (colls s))\<inverse>)" for a
  proof -
    have "child_rel (colls s') = child_rel (colls s)" by (simp add: child_rel_def ch)
    with that have "wf ((child_rel (colls s'))\<inverse>)" by simp
    from cache_fill_terminates [OF this, of a]
    obtain N where N: "\<forall>n\<ge>N. \<forall>lb r. collection_object_cache_fill n (colls s') lb a r \<noteq> None"
      by blast
    have "BKE_collection_object_cache_get m (colls s') a \<noteq> None" if "m \<ge> N" for m
    proof -
      from N that obtain lb where
        "collection_object_cache_fill m (colls s') (object_cache (colls s' a)) a 0 = Some lb"
        by blast
      then show ?thesis by (simp add: BKE_collection_object_cache_get_def Let_def)
    qed
    then show ?thesis by blast
  qed
  have c1: "ob \<in> set (gobject (colls s collection))"
    by (rule object_remove_success(1) [OF rem])
  have c2: "\<forall>x. gobject (colls s' x)
                 = (if x = collection then remove1 ob (gobject (colls s collection))
                    else gobject (colls s x))
              \<and> children (colls s' x) = children (colls s x)
              \<and> parents (colls s' x) = parents (colls s x)"
    using g ch pa by blast
  have c3: "\<forall>a. (a, collection) \<in> (parent_rel (colls s))\<^sup>* \<longrightarrow>
            flag (colls s' a) AND COLLECTION_HAS_OBJECT_CACHE = 0 \<and> object_cache (colls s' a) = []"
    using cleared by blast
  have c4: "\<forall>a m lb h'. (a, collection) \<in> (parent_rel (colls s))\<^sup>*
              \<and> BKE_collection_object_cache_get m (colls s') a = Some (lb, h')
            \<longrightarrow> object ` set lb = objects_below (colls s') a"
    using filled by blast
  have c5: "\<forall>m lb h'. BKE_collection_object_cache_get m (colls s') collection = Some (lb, h') \<longrightarrow>
            (ob \<in> object ` set lb \<longleftrightarrow>
               ob \<in> set (remove1 ob (gobject (colls s collection)))
               \<or> (\<exists>c. c \<noteq> collection \<and> (collection, c) \<in> (child_rel (colls s))\<^sup>*
                       \<and> ob \<in> set (gobject (colls s c))))"
    using self by blast
  have c6: "wf ((child_rel (colls s))\<inverse>) \<longrightarrow>
            (\<forall>a. \<exists>N. \<forall>m\<ge>N. BKE_collection_object_cache_get m (colls s') a \<noteq> None)"
    using returns by blast
  show ?thesis by (intro conjI c1 c2 c3 c4 c5 c6)
qed

text \<open>
  In the scenario with the caches of the master and of B filled, the object 7 is taken out
  of B: both caches are emptied, the list read from B is empty, and the list read from the
  master still holds the object, which C holds.
\<close>

theorem removed_object_absent_from_cache_witness:
  "\<exists>s'. collection_object_remove 3 cached_world 2 7 False = Some (True, s')
     \<and> object_cache (colls cached_world 2) = [new_base 0 7]
     \<and> object_cache (colls cached_world 0) = [new_base (scast COLLECTION_IS_MASTER) 7]
     \<and> gobject (colls s' 2) = []
     \<and> object_cache (colls s' 2) = [] \<and> object_cache (colls s' 0) = []
     \<and> map_option fst (BKE_collection_object_cache_get 3 (colls s') 2) = Some []
     \<and> map_option fst (BKE_collection_object_cache_get 3 (colls s') 0)
         = Some [new_base (scast COLLECTION_IS_MASTER) 7]
     \<and> (\<forall>m lb h'. BKE_collection_object_cache_get m (colls s') 2 = Some (lb, h') \<longrightarrow>
            7 \<notin> object ` set lb)
     \<and> (\<forall>a. \<exists>N. \<forall>m\<ge>N. BKE_collection_object_cache_get m (colls s') a \<noteq> None)"
proof -
  have m: "(COLLECTION_IS_MASTER OR COLLECTION_HAS_OBJECT_CACHE) AND NOT COLLECTION_HAS_OBJECT_CACHE
             = COLLECTION_IS_MASTER"
    by (simp add: COLLECTION_IS_MASTER_def COLLECTION_HAS_OBJECT_CACHE_def)
  have m2: "COLLECTION_IS_MASTER AND COLLECTION_HAS_OBJECT_CACHE = 0"
    by (simp add: COLLECTION_IS_MASTER_def COLLECTION_HAS_OBJECT_CACHE_def)
  have ev: "\<exists>s'. collection_object_remove 3 cached_world 2 7 False = Some (True, s')
     \<and> gobject (colls s' 2) = []
     \<and> object_cache (colls s' 2) = [] \<and> object_cache (colls s' 0) = []
     \<and> map_option fst (BKE_collection_object_cache_get 3 (colls s') 2) = Some []
     \<and> map_option fst (BKE_collection_object_cache_get 3 (colls s') 0)
         = Some [new_base (scast COLLECTION_IS_MASTER) 7]"
    by (simp add: eval_nat_numeral collection_object_remove_def BKE_collection_object_cache_free_def
        BKE_collection_object_cache_get_def Let_def cached_world_def cached_scenario_def
        scenario_def empty_collection_def m m2)
  then obtain s' where rem: "collection_object_remove 3 cached_world 2 7 False = Some (True, s')"
    and rest: "gobject (colls s' 2) = []"
      "object_cache (colls s' 2) = []" "object_cache (colls s' 0) = []"
      "map_option fst (BKE_collection_object_cache_get 3 (colls s') 2) = Some []"
      "map_option fst (BKE_collection_object_cache_get 3 (colls s') 0)
         = Some [new_base (scast COLLECTION_IS_MASTER) 7]"
    by blast
  have before: "object_cache (colls cached_world 2) = [new_base 0 7]"
    "object_cache (colls cached_world 0) = [new_base (scast COLLECTION_IS_MASTER) 7]"
    by (simp_all add: cached_world_def cached_scenario_def)
  have wf: "wf ((child_rel (colls cached_world))\<inverse>)"
    using graph_inv_wf_child [OF cached_scenario_inv] by (simp add: cached_world_def)
  have g2: "gobject (colls cached_world 2) = [7]"
    by (simp add: cached_world_def cached_scenario_def scenario_def)
  have nochild: "\<not> (\<exists>c. c \<noteq> 2 \<and> (2, c) \<in> (child_rel (colls cached_world))\<^sup>*
                       \<and> 7 \<in> set (gobject (colls cached_world c)))"
  proof
    assume "\<exists>c. c \<noteq> 2 \<and> (2, c) \<in> (child_rel (colls cached_world))\<^sup>*
                       \<and> 7 \<in> set (gobject (colls cached_world c))"
    then obtain c where "c \<noteq> 2" and "(2, c) \<in> (child_rel (colls cached_world))\<^sup>*" by blast
    then obtain d where "(2, d) \<in> child_rel (colls cached_world)"
      by (auto elim: converse_rtranclE)
    then show False by (simp add: child_rel_def cached_world_def scenario_def empty_collection_def)
  qed
  note facts = removed_object_absent_from_cache [OF rem]
  from facts have c5: "\<forall>m lb h'. BKE_collection_object_cache_get m (colls s') 2 = Some (lb, h') \<longrightarrow>
            (7 \<in> object ` set lb \<longleftrightarrow>
               7 \<in> set (remove1 7 (gobject (colls cached_world 2)))
               \<or> (\<exists>c. c \<noteq> 2 \<and> (2, c) \<in> (child_rel (colls cached_world))\<^sup>*
                       \<and> 7 \<in> set (gobject (colls cached_world c))))"
    by (elim conjE)
  from facts wf have c6: "\<forall>a. \<exists>N. \<forall>m\<ge>N. BKE_collection_object_cache_get m (colls s') a \<noteq> None"
    by (elim conjE) (erule mp)
  have absent: "\<forall>m lb h'. BKE_collection_object_cache_get m (colls s') 2 = Some (lb, h') \<longrightarrow>
            7 \<notin> object ` set lb"
  proof (intro allI impI)
    fix m lb h'
    assume "BKE_collection_object_cache_get m (colls s') 2 = Some (lb, h')"
    with c5 have "7 \<in> object ` set lb \<longleftrightarrow>
               7 \<in> set (remove1 7 (gobject (colls cached_world 2)))
               \<or> (\<exists>c. c \<noteq> 2 \<and> (2, c) \<in> (child_rel (colls cached_world))\<^sup>*
                       \<and> 7 \<in> set (gobject (colls cached_world c)))"
      by blast
    with nochild show "7 \<notin> object ` set lb" by (simp add: g2)
  qed
  show ?thesis
    by (rule exI [of _ s']) (intro conjI rem rest before absent c6)
qed

text \<open>
  C7. When \<^verbatim>\<open>BKE_collection_object_cache_get\<close> has returned a list, a second call with
  nothing changed in between returns the same list (the same bases, with the same flags,
  in the same order) and leaves the state as it is; on a graph that satisfies the
  invariants the first call returns.
\<close>

theorem cache_get_twice:
  "(BKE_collection_object_cache_get n h collection = Some (lb, h')
      \<longrightarrow> BKE_collection_object_cache_get m h' collection = Some (lb, h'))
   \<and> (graph_inv h \<longrightarrow> (\<exists>N. \<forall>n\<ge>N. BKE_collection_object_cache_get n h collection \<noteq> None))"
  using cache_get_again [of n h collection lb h' m] cache_get_terminates [of h collection]
  by blast

text \<open>The flattened list of the master of the scenario, read twice.\<close>

theorem cache_get_twice_witness:
  "BKE_collection_object_cache_get 3 scenario 0
     = Some ([new_base (scast COLLECTION_IS_MASTER) 7],
             scenario(0 := (scenario 0)\<lparr>flag := COLLECTION_IS_MASTER OR COLLECTION_HAS_OBJECT_CACHE,
                                          object_cache := [new_base (scast COLLECTION_IS_MASTER) 7]\<rparr>))
   \<and> BKE_collection_object_cache_get 0
       (scenario(0 := (scenario 0)\<lparr>flag := COLLECTION_IS_MASTER OR COLLECTION_HAS_OBJECT_CACHE,
                                    object_cache := [new_base (scast COLLECTION_IS_MASTER) 7]\<rparr>)) 0
     = Some ([new_base (scast COLLECTION_IS_MASTER) 7],
             scenario(0 := (scenario 0)\<lparr>flag := COLLECTION_IS_MASTER OR COLLECTION_HAS_OBJECT_CACHE,
                                          object_cache := [new_base (scast COLLECTION_IS_MASTER) 7]\<rparr>))
   \<and> (\<exists>N. \<forall>n\<ge>N. BKE_collection_object_cache_get n scenario 0 \<noteq> None)"
proof -
  have m: "COLLECTION_IS_MASTER AND COLLECTION_HAS_OBJECT_CACHE = 0"
    by (simp add: COLLECTION_IS_MASTER_def COLLECTION_HAS_OBJECT_CACHE_def)
  have first: "BKE_collection_object_cache_get 3 scenario 0
     = Some ([new_base (scast COLLECTION_IS_MASTER) 7],
             scenario(0 := (scenario 0)\<lparr>flag := COLLECTION_IS_MASTER OR COLLECTION_HAS_OBJECT_CACHE,
                                          object_cache := [new_base (scast COLLECTION_IS_MASTER) 7]\<rparr>))"
    by (simp add: eval_nat_numeral BKE_collection_object_cache_get_def Let_def scenario_def
        empty_collection_def m)
  from cache_get_twice [of 3 scenario 0 _ _ 0] first scenario_inv show ?thesis by blast
qed

text \<open>
  C10. For \<^verbatim>\<open>BKE_collection_object_move\<close> with a source collection that is not \<^verbatim>\<open>NULL\<close>:
  when the call returns, either \<^verbatim>\<open>BKE_collection_object_add\<close> to the destination had
  succeeded, or the state is the one before the call, so nothing was removed from the
  source. When the object is a direct member of the destination already (on a graph that
  satisfies the invariants), the call returns and changes nothing: the object stays a
  member of the source as well.
\<close>

theorem object_move_keeps_source:
  "(BKE_collection_object_move n s scene dst (Some src) ob = Some s'
      \<longrightarrow> (\<exists>s1. BKE_collection_object_add n s dst (Some ob) = Some (True, s1)) \<or> s' = s)
   \<and> (graph_inv (colls s) \<and> ob \<in> set (gobject (colls s d))
      \<longrightarrow> (\<exists>N. \<forall>n\<ge>N. BKE_collection_object_move n s scene (Some d) (Some src) ob = Some s))"
proof (intro conjI impI)
  assume mv: "BKE_collection_object_move n s scene dst (Some src) ob = Some s'"
  show "(\<exists>s1. BKE_collection_object_add n s dst (Some ob) = Some (True, s1)) \<or> s' = s"
  proof (cases "BKE_collection_object_add n s dst (Some ob)")
    case None
    with mv show ?thesis by (simp add: BKE_collection_object_move_def)
  next
    case (Some r)
    obtain b s1 where r: "r = (b, s1)" by (cases r)
    show ?thesis
    proof (cases b)
      case True
      with Some r show ?thesis by simp
    next
      case False
      with Some r have add: "BKE_collection_object_add n s dst (Some ob) = Some (False, s1)" by simp
      from BKE_object_add_refused_state [OF add] have "s1 = s" .
      with mv add show ?thesis by (simp add: BKE_collection_object_move_def)
    qed
  qed
next
  assume "graph_inv (colls s) \<and> ob \<in> set (gobject (colls s d))"
  then have inv: "graph_inv (colls s)" and mem: "ob \<in> set (gobject (colls s d))" by blast+
  from object_add_member_terminates [OF inv mem, of 0 True]
  obtain N where "\<forall>n\<ge>N. collection_object_add n s d ob 0 True = Some (False, s)" by blast
  then have "\<forall>n\<ge>N. BKE_collection_object_move n s scene (Some d) (Some src) ob = Some s"
    by (simp add: BKE_collection_object_move_def BKE_collection_object_add_def)
  then show "\<exists>N. \<forall>n\<ge>N. BKE_collection_object_move n s scene (Some d) (Some src) ob = Some s"
    by blast
qed

text \<open>In the scenario, moving the object 7 from B to C, where it is already.\<close>

theorem object_move_keeps_source_witness:
  "BKE_collection_object_move 3 scenario_world scene0 (Some 3) (Some 2) 7 = Some scenario_world
   \<and> (\<exists>N. \<forall>n\<ge>N. BKE_collection_object_move n scenario_world scene0 (Some 3) (Some 2) 7
                     = Some scenario_world)"
proof -
  have mem: "7 \<in> set (gobject (colls scenario_world 3))"
    by (simp add: scenario_def)
  have inv: "graph_inv (colls scenario_world)" by (simp add: scenario_inv)
  from object_move_keeps_source [of _ scenario_world scene0 _ 2 7 _ 3] inv mem
  have ev: "\<exists>N. \<forall>n\<ge>N. BKE_collection_object_move n scenario_world scene0 (Some 3) (Some 2) 7
                     = Some scenario_world"
    by blast
  have "BKE_collection_object_move 3 scenario_world scene0 (Some 3) (Some 2) 7 = Some scenario_world"
    by (simp add: BKE_collection_object_move_def BKE_collection_object_add_def
        collection_object_add_def scenario_world_def scenario_def plain_object_def)
  with ev show ?thesis by blast
qed




text \<open>
  C4 (the code at the failing input). The object 9 instances the collection A, which is the
  parent of C. \<^verbatim>\<open>collection_object_add\<close> of the object to C returns \<^verbatim>\<open>true\<close> and appends
  the member-edge: the guard walks the children of the target collection, where it finds no
  ancestor.
\<close>

theorem object_add_instancing_ancestor:
  "dup_group (objs instancing_world 9) = Some 1
   \<and> 3 \<in> set (children (colls instancing_world 1))
   \<and> map_option (\<lambda>r. (fst r, gobject (colls (snd r) 3)))
        (collection_object_add 3 instancing_world 3 9 0 True) = Some (True, [7, 9])"
  by (simp add: instancing_world_def scenario_world_def scenario_def empty_collection_def
      collection_object_add_def BKE_collection_object_cache_free_def Let_def eval_nat_numeral
      plain_object_def LIB_ID_CREATE_NO_USER_REFCOUNT_def object_id_us_plus_def)

text \<open>
  C8 (the code at the failing input). In a scene whose master collection holds one object
  and has no child, the all-objects iterator yields this object twice:
  \<^verbatim>\<open>BKE_scene_objects_iterator_begin\<close> hands out the first object of the master collection
  without recording it as visited.
\<close>

theorem scene_objects_first_object_twice:
  "FOREACH_SCENE_OBJECT 3 master_only scene0 = Some [7, 7]"
  by (simp add: FOREACH_SCENE_OBJECT_def BKE_scene_objects_iterator_begin_def
      BKE_scene_collections_iterator_begin_def scene_collections_array_def scene0_def
      master_only_def empty_collection_def scene_collections_count_def
      scene_collections_build_array_def BKE_scene_objects_iterator_next_def
      BKE_scene_collections_iterator_next_def Let_def eval_nat_numeral)

end
